theory Spec2Isabelle
  imports Main "HOL-Library.Product_Lexorder" "HOL-Library.Multiset"
begin

section \<open>Chimeric contig breaking (ragoo\_utilities/break\_chimera.py)\<close>

text \<open>
  A shallow embedding of the six functions of \<^verbatim>\<open>break_chimera.py\<close>. Python integers are
  \<^typ>\<open>int\<close>, strings are \<^typ>\<open>string\<close>, an exception is the \<open>Inl\<close> branch of a sum,
  a dictionary is a map or, where the iteration order of its keys is used, an association
  list in insertion order.
\<close>

subsection \<open>Data model\<close>

datatype py_error = IndexError | KeyError | ZeroDivisionError | AssertionError | ValueError

text \<open>
  Modelled from the spec: the class \<^verbatim>\<open>ContigAlignment\<close> (module
  \<^verbatim>\<open>ragoo_utilities.ContigAlignment\<close>) holds one contig's alignments as parallel lists
  that are indexed consistently. One alignment is a row here; the parallel lists the code
  reads (\<^verbatim>\<open>alns.ref_headers[i]\<close>, ...) are the columns of the rows, so they all have the
  same length.
\<close>

record alignment =
  ref_header :: string
  ref_start :: int
  ref_end :: int
  query_start :: int
  query_end :: int
  aln_len :: int
  query_len :: int
  strand :: char

record contig_alignment =
  contig :: string
  rows :: "alignment list"

definition ref_headers :: "contig_alignment \<Rightarrow> string list" where
  "ref_headers alns = map ref_header (rows alns)"

definition ref_starts :: "contig_alignment \<Rightarrow> int list" where
  "ref_starts alns = map ref_start (rows alns)"

definition ref_ends :: "contig_alignment \<Rightarrow> int list" where
  "ref_ends alns = map ref_end (rows alns)"

definition query_starts :: "contig_alignment \<Rightarrow> int list" where
  "query_starts alns = map query_start (rows alns)"

definition query_ends :: "contig_alignment \<Rightarrow> int list" where
  "query_ends alns = map query_end (rows alns)"

definition aln_lens :: "contig_alignment \<Rightarrow> int list" where
  "aln_lens alns = map aln_len (rows alns)"

definition query_lens :: "contig_alignment \<Rightarrow> int list" where
  "query_lens alns = map query_len (rows alns)"

text \<open>
  Modelled from the spec: the two filters of \<^verbatim>\<open>ContigAlignment\<close>, "restrict to a chosen
  subset of reference chromosome names" and "restrict to alignments with length \<open>\<ge>\<close> a
  minimum". In Python they mutate the object; here they return the filtered object and the
  callers below say which object they replace.
\<close>

definition filter_ref_chroms :: "string list \<Rightarrow> contig_alignment \<Rightarrow> contig_alignment" where
  "filter_ref_chroms chroms alns = alns\<lparr>rows := filter (\<lambda>a. ref_header a \<in> set chroms) (rows alns)\<rparr>"

definition filter_lengths :: "int \<Rightarrow> contig_alignment \<Rightarrow> contig_alignment" where
  "filter_lengths l alns = alns\<lparr>rows := filter (\<lambda>a. l \<le> aln_len a) (rows alns)\<rparr>"

subsection \<open>Coverage Scorer: \<^verbatim>\<open>get_ref_parts\<close>\<close>

text \<open>
  \<^verbatim>\<open>all_intervals\<close> is a \<^verbatim>\<open>defaultdict(list)\<close>: appending under a key keeps the keys in
  the order of their first insertion.
\<close>

fun dd_append :: "'k \<Rightarrow> 'v \<Rightarrow> ('k \<times> 'v list) list \<Rightarrow> ('k \<times> 'v list) list" where
  "dd_append k v [] = [(k, [v])]"
| "dd_append k v ((k', vs) # rest) =
     (if k = k' then (k', vs @ [v]) # rest else (k', vs) # dd_append k v rest)"

text \<open>Lines 22 to 26: the loop over all alignments, skipping the short ones.\<close>

fun collect_intervals ::
  "alignment list \<Rightarrow> int \<Rightarrow> (string \<times> (int \<times> int) list) list \<Rightarrow> (string \<times> (int \<times> int) list) list" where
  "collect_intervals [] l acc = acc"
| "collect_intervals (a # as) l acc =
     (if aln_len a < l then collect_intervals as l acc
      else collect_intervals as l (dd_append (ref_header a) (ref_start a, ref_end a) acc))"

definition all_intervals :: "contig_alignment \<Rightarrow> int \<Rightarrow> (string \<times> (int \<times> int) list) list" where
  "all_intervals alns l = collect_intervals (rows alns) l []"

text \<open>
  Lines 36 to 40: one step of the sweep on the state \<open>(max_end, covered)\<close>, and the sweep
  over the intervals sorted by start (\<^verbatim>\<open>sorted(..., key=lambda tup: tup[0])\<close> is stable, as
  \<^const>\<open>sort_key\<close> is), from \<open>max_end = -1\<close>.
\<close>

definition sweep_step :: "int \<times> int \<Rightarrow> int \<times> int \<Rightarrow> int \<times> int" where
  "sweep_step j st =
     (let max_end = fst st;
          start_new_terr = max (fst j) max_end
      in (max max_end (snd j), snd st + max 0 (snd j - start_new_terr)))"

definition union_length :: "(int \<times> int) list \<Rightarrow> int" where
  "union_length ivs = snd (fold sweep_step (sort_key fst ivs) (- 1, 0))"

definition ranges :: "contig_alignment \<Rightarrow> int \<Rightarrow> (string \<times> int) list" where
  "ranges alns l = map (\<lambda>(k, ivs). (k, union_length ivs)) (all_intervals alns l)"

text \<open>
  Lines 42 to 48. The test \<^verbatim>\<open>(ranges[i]/total_sum)*100 > float(p)\<close> is floating point: its
  outcome on a non-zero total is the parameter \<open>pct_exceeds\<close> (applied to \<^verbatim>\<open>ranges[i]\<close> and
  \<^verbatim>\<open>total_sum\<close>). The division is evaluated first, so a zero total raises
  \<^verbatim>\<open>ZeroDivisionError\<close> at the first key.
\<close>

fun chimeric_loop ::
  "(int \<Rightarrow> int \<Rightarrow> bool) \<Rightarrow> int \<Rightarrow> int \<Rightarrow> (string \<times> int) list \<Rightarrow> string list \<Rightarrow> py_error + string list" where
  "chimeric_loop pct_exceeds total_sum r [] chimeric_refs = Inr chimeric_refs"
| "chimeric_loop pct_exceeds total_sum r ((i, v) # rest) chimeric_refs =
     (if total_sum = 0 then Inl ZeroDivisionError
      else chimeric_loop pct_exceeds total_sum r rest
             (if pct_exceeds v total_sum \<and> v > r then chimeric_refs @ [i] else chimeric_refs))"

definition get_ref_parts ::
  "(int \<Rightarrow> int \<Rightarrow> bool) \<Rightarrow> contig_alignment \<Rightarrow> int \<Rightarrow> int \<Rightarrow> py_error + string list" where
  "get_ref_parts pct_exceeds alns l r =
     (let rs = ranges alns l;
          total_sum = sum_list (map snd rs)
      in chimeric_loop pct_exceeds total_sum r rs [])"

text \<open>
  The naive reference for the covered length: the number of integer positions that lie in
  at least one of the half-open intervals.
\<close>

definition naive_union_length :: "(int \<times> int) list \<Rightarrow> nat" where
  "naive_union_length ivs = card (\<Union>iv \<in> set ivs. {fst iv ..< snd iv})"

subsection \<open>Interchromosomal Clusterer: \<^verbatim>\<open>cluster_contig_alns\<close> and \<^verbatim>\<open>get_borders\<close>\<close>

text \<open>\<^verbatim>\<open>xs[i]\<close> for an index \<open>i \<ge> 0\<close>: Python raises \<^verbatim>\<open>IndexError\<close> out of range.\<close>

definition getitem :: "'a list \<Rightarrow> nat \<Rightarrow> py_error + 'a" where
  "getitem xs i = (if i < length xs then Inr (xs ! i) else Inl IndexError)"

text \<open>
  Lines 74 to 77, the loop of \<^verbatim>\<open>get_borders\<close> over the indices \<open>i\<close> it is given, on the state
  \<open>(current_ref, borders)\<close>. The caller passes \<^verbatim>\<open>range(1, len(ordered_refs)-1)\<close>, which keeps
  \<open>i + 1\<close> inside \<^verbatim>\<open>ordered_refs\<close>.
\<close>

fun borders_loop ::
  "string list \<Rightarrow> contig_alignment \<Rightarrow> nat list \<Rightarrow> nat list \<Rightarrow> string \<Rightarrow> int list \<Rightarrow> py_error + int list" where
  "borders_loop ordered_refs alns order [] current_ref borders = Inr borders"
| "borders_loop ordered_refs alns order (i # is) current_ref borders =
     (if ordered_refs ! i \<noteq> current_ref \<and> ordered_refs ! (i + 1) \<noteq> current_ref then
        (case getitem order (i - 1) of
           Inl e \<Rightarrow> Inl e
         | Inr j \<Rightarrow>
             (case getitem (query_ends alns) j of
                Inl e \<Rightarrow> Inl e
              | Inr q \<Rightarrow> borders_loop ordered_refs alns order is (ordered_refs ! i) (borders @ [q])))
      else borders_loop ordered_refs alns order is current_ref borders)"

text \<open>Line 80: the consecutive pairs of the collected breakpoints.\<close>

definition consecutive_pairs :: "int list \<Rightarrow> (int \<times> int) list" where
  "consecutive_pairs borders = map (\<lambda>i. (borders ! i, borders ! (i + 1))) [0..<length borders - 1]"

definition get_borders ::
  "string list \<Rightarrow> contig_alignment \<Rightarrow> nat list \<Rightarrow> py_error + (int \<times> int) list" where
  "get_borders ordered_refs alns order =
     (case ordered_refs of
        [] \<Rightarrow> Inl IndexError
      | current_ref # _ \<Rightarrow>
          (case borders_loop ordered_refs alns order [1..<length ordered_refs - 1] current_ref [0] of
             Inl e \<Rightarrow> Inl e
           | Inr borders \<Rightarrow>
               (case query_lens alns of
                  [] \<Rightarrow> Inl IndexError
                | ql # _ \<Rightarrow> Inr (consecutive_pairs (borders @ [ql])))))"

text \<open>
  Lines 60 to 66: the triples \<open>(query_start, query_end, i)\<close> sorted as Python sorts tuples
  (lexicographically; the index makes them distinct), and the indices read off.
\<close>

definition query_order :: "contig_alignment \<Rightarrow> nat list" where
  "query_order ctg_alns =
     map (\<lambda>t. snd (snd t))
       (sort (map (\<lambda>i. (query_starts ctg_alns ! i, query_ends ctg_alns ! i, i))
          [0..<length (ref_headers ctg_alns)]))"

text \<open>
  \<^verbatim>\<open>cluster_contig_alns\<close>: \<^verbatim>\<open>alns[contig]\<close> raises \<^verbatim>\<open>KeyError\<close> on a missing contig; the
  chromosome filter mutates the object that the dictionary holds, so the dictionary is
  returned with the filtered object. The parameter \<open>l\<close> is not used by the code.
\<close>

definition cluster_contig_alns ::
  "string \<Rightarrow> (string \<rightharpoonup> contig_alignment) \<Rightarrow> string list \<Rightarrow> int
     \<Rightarrow> py_error + ((string \<rightharpoonup> contig_alignment) \<times> (int \<times> int) list)" where
  "cluster_contig_alns contig_name alns chroms l =
     (case alns contig_name of
        None \<Rightarrow> Inl KeyError
      | Some ctg_alns0 \<Rightarrow>
          (let ctg_alns = filter_ref_chroms chroms ctg_alns0;
               final_order = query_order ctg_alns;
               final_refs = map (\<lambda>i. ref_headers ctg_alns ! i) final_order
           in (case get_borders final_refs ctg_alns final_order of
                 Inl e \<Rightarrow> Inl e
               | Inr intervals \<Rightarrow> Inr (alns(contig_name \<mapsto> ctg_alns), intervals))))"

text \<open>
  The walk as the specification words it, over the alignments in sorted order: at a
  position with a previous and a next alignment, a breakpoint at the previous alignment's
  query end is emitted when the chromosome here and the next one both differ from
  \<open>current_ref\<close>, which then becomes the chromosome here.
\<close>

fun switch_points :: "string \<Rightarrow> alignment list \<Rightarrow> int list" where
  "switch_points current_ref (prev # this # nxt # rest) =
     (if ref_header this \<noteq> current_ref \<and> ref_header nxt \<noteq> current_ref
      then query_end prev # switch_points (ref_header this) (this # nxt # rest)
      else switch_points current_ref (this # nxt # rest))"
| "switch_points current_ref _ = []"

definition in_query_order :: "contig_alignment \<Rightarrow> alignment list" where
  "in_query_order ctg_alns = map (\<lambda>i. rows ctg_alns ! i) (query_order ctg_alns)"

subsection \<open>Intrachromosomal Detector: \<^verbatim>\<open>get_intra_contigs\<close>\<close>

text \<open>
  Lines 192 to 195: the triples \<open>(ref_start, ref_end, i)\<close> sorted as Python sorts tuples,
  and the indices read off.
\<close>

definition ref_order :: "contig_alignment \<Rightarrow> nat list" where
  "ref_order ctg_alns =
     map (\<lambda>t. snd (snd t))
       (sort (map (\<lambda>i. (ref_starts ctg_alns ! i, ref_ends ctg_alns ! i, i))
          [0..<length (ref_headers ctg_alns)]))"

text \<open>\<^verbatim>\<open>xs.index(x)\<close> for an \<open>x\<close> that occurs in \<open>xs\<close>: the first position of \<open>x\<close>.\<close>

definition first_index :: "'a list \<Rightarrow> 'a \<Rightarrow> nat" where
  "first_index xs x = length (takeWhile (\<lambda>y. y \<noteq> x) xs)"

text \<open>
  Lines 185 to 234, on the filtered private copy \<open>ctg_alns\<close>. Python's \<^verbatim>\<open>None\<close> (the bare
  \<^verbatim>\<open>return\<close> and the fall through at the end) is \<open>None\<close>. \<open>longest_strand\<close> stands for
  \<^verbatim>\<open>LongestContigAlignment(ctg_alns).strand\<close>, a class that is not in this file: the strand
  of the longest alignment, with whatever tie-break that class has. \<^verbatim>\<open>max\<close> is only taken
  of non-empty lists (the second one is as long as the first), and \<^verbatim>\<open>index\<close> only of an
  element that occurs.
\<close>

definition intra_breaks ::
  "(contig_alignment \<Rightarrow> char) \<Rightarrow> contig_alignment \<Rightarrow> int \<Rightarrow> int
     \<Rightarrow> (string \<times> (int \<times> int) list) option" where
  "intra_breaks longest_strand ctg_alns d c =
     (if length (ref_headers ctg_alns) = 0 then None
      else
        let final_order = ref_order ctg_alns;
            is_rc = (longest_strand ctg_alns = CHR ''-'');
            q_starts = (if is_rc then query_ends ctg_alns else query_starts ctg_alns);
            q_ends = (if is_rc then query_starts ctg_alns else query_ends ctg_alns);
            ordered_query_ends = map (\<lambda>i. q_ends ! i) final_order;
            ordered_query_starts = map (\<lambda>i. q_starts ! i) final_order;
            distances_wrt_ref =
              map (\<lambda>i. ref_starts ctg_alns ! (final_order ! (i + 1)) - ref_starts ctg_alns ! (final_order ! i))
                [0..<length final_order - 1];
            distances_wrt_ctg =
              map (\<lambda>i. \<bar>q_starts ! (final_order ! (i + 1)) - q_starts ! (final_order ! i)\<bar>)
                [0..<length final_order - 1]
        in
          if distances_wrt_ref \<noteq> [] then
            if Max (set distances_wrt_ref) > d then
              let break_index = first_index distances_wrt_ref (Max (set distances_wrt_ref))
              in if ordered_query_starts ! break_index < ordered_query_ends ! break_index
                 then Some (contig ctg_alns,
                        [(0, ordered_query_starts ! break_index),
                         (ordered_query_starts ! break_index, query_lens ctg_alns ! 0)])
                 else Some (contig ctg_alns,
                        [(0, ordered_query_ends ! break_index),
                         (ordered_query_ends ! break_index, query_lens ctg_alns ! 0)])
            else if Max (set distances_wrt_ctg) > c then
              Some (contig ctg_alns,
                [(0, ordered_query_starts ! 0), (ordered_query_starts ! 0, query_lens ctg_alns ! 0)])
            else None
          else None)"

text \<open>
  The objects of the program live in a store: a reference is a position in the list of
  allocated objects. \<^verbatim>\<open>copy.deepcopy\<close> allocates a new object with the same contents (the
  fields are lists of numbers and strings, so no part is shared); the two filters of
  \<^verbatim>\<open>ContigAlignment\<close> overwrite the object they are called on.
\<close>

type_synonym store = "contig_alignment list"

definition deepcopy :: "store \<Rightarrow> nat \<Rightarrow> nat \<times> store" where
  "deepcopy h a = (length h, h @ [h ! a])"

definition filter_ref_chroms_inplace :: "string list \<Rightarrow> nat \<Rightarrow> store \<Rightarrow> store" where
  "filter_ref_chroms_inplace chroms a h = h[a := filter_ref_chroms chroms (h ! a)]"

definition filter_lengths_inplace :: "int \<Rightarrow> nat \<Rightarrow> store \<Rightarrow> store" where
  "filter_lengths_inplace l a h = h[a := filter_lengths l (h ! a)]"

text \<open>
  \<^verbatim>\<open>get_intra_contigs\<close> on the store \<open>h\<close>, called with the reference \<open>alns\<close>; it returns the
  store it leaves behind and its result. \<open>uniq_ref_chrom\<close> stands for
  \<^verbatim>\<open>UniqueContigAlignment(alns).ref_chrom\<close>, a class that is not in this file: it reads the
  caller's object and gives the best chromosome, or raises.
\<close>

definition get_intra_contigs ::
  "(contig_alignment \<Rightarrow> py_error + string) \<Rightarrow> (contig_alignment \<Rightarrow> char) \<Rightarrow> store \<Rightarrow> nat
     \<Rightarrow> int \<Rightarrow> int \<Rightarrow> int \<Rightarrow> store \<times> (py_error + (string \<times> (int \<times> int) list) option)" where
  "get_intra_contigs uniq_ref_chrom longest_strand h alns l d c =
     (case uniq_ref_chrom (h ! alns) of
        Inl e \<Rightarrow> (h, Inl e)
      | Inr best_header \<Rightarrow>
          (let (ctg_alns, h1) = deepcopy h alns;
               h2 = filter_ref_chroms_inplace [best_header] ctg_alns h1;
               h3 = filter_lengths_inplace l ctg_alns h2
           in (h3, Inr (intra_breaks longest_strand (h3 ! ctg_alns) d c))))"

text \<open>
  The detector's rule as the specification words it, over the alignments in reference
  order. \<open>role_start\<close> and \<open>role_end\<close> are the query start and end with their roles swapped
  on the reverse strand.
\<close>

definition in_ref_order :: "contig_alignment \<Rightarrow> alignment list" where
  "in_ref_order ctg_alns = map (\<lambda>i. rows ctg_alns ! i) (ref_order ctg_alns)"

definition role_start :: "bool \<Rightarrow> alignment \<Rightarrow> int" where
  "role_start is_rc a = (if is_rc then query_end a else query_start a)"

definition role_end :: "bool \<Rightarrow> alignment \<Rightarrow> int" where
  "role_end is_rc a = (if is_rc then query_start a else query_end a)"

definition ref_gaps :: "alignment list \<Rightarrow> int list" where
  "ref_gaps srt = map (\<lambda>(a, b). ref_start b - ref_start a) (zip srt (tl srt))"

definition query_gaps :: "bool \<Rightarrow> alignment list \<Rightarrow> int list" where
  "query_gaps is_rc srt = map (\<lambda>(a, b). \<bar>role_start is_rc b - role_start is_rc a\<bar>) (zip srt (tl srt))"

definition two_pieces :: "int \<Rightarrow> int \<Rightarrow> (int \<times> int) list" where
  "two_pieces b query_length = [(0, b), (b, query_length)]"

text \<open>
  The rule itself, on the alignments \<open>srt\<close> in reference order: the reference gap rule
  first (the break is at the alignment before the largest gap, the first one if several
  gaps are largest), then the query gap rule, else no breakpoint.
\<close>

definition detector_spec :: "bool \<Rightarrow> alignment list \<Rightarrow> int \<Rightarrow> int \<Rightarrow> int \<Rightarrow> (int \<times> int) list option" where
  "detector_spec is_rc srt query_length d c =
     (if ref_gaps srt \<noteq> [] \<and> Max (set (ref_gaps srt)) > d then
        let a = srt ! first_index (ref_gaps srt) (Max (set (ref_gaps srt)))
        in Some (two_pieces
                   (if role_start is_rc a < role_end is_rc a then role_start is_rc a
                    else role_end is_rc a)
                   query_length)
      else if query_gaps is_rc srt \<noteq> [] \<and> Max (set (query_gaps is_rc srt)) > c then
        Some (two_pieces (role_start is_rc (hd srt)) query_length)
      else None)"

subsection \<open>Interval index and sub-contig names\<close>

text \<open>
  The \<^verbatim>\<open>IntervalTree\<close> of the \<^verbatim>\<open>intervaltree\<close> package, as far as the code uses it: a set of
  intervals \<open>(begin, end, data)\<close>, kept here as a list without repetitions. \<^verbatim>\<open>t[b:e] = d\<close>
  adds an interval, does nothing when it is already there and raises \<^verbatim>\<open>ValueError\<close> for a
  null interval (\<open>b \<ge> e\<close>); \<^verbatim>\<open>t[p]\<close> is the set of the intervals with \<open>begin \<le> p < end\<close>.
\<close>

type_synonym 'd interval_tree = "(int \<times> int \<times> 'd) list"

definition tree_add :: "int \<Rightarrow> int \<Rightarrow> 'd \<Rightarrow> 'd interval_tree \<Rightarrow> py_error + 'd interval_tree" where
  "tree_add b e d t =
     (if (b, e, d) \<in> set t then Inr t
      else if b \<ge> e then Inl ValueError
      else Inr (t @ [(b, e, d)]))"

definition tree_at :: "'d interval_tree \<Rightarrow> int \<Rightarrow> (int \<times> int \<times> 'd) list" where
  "tree_at t p = filter (\<lambda>(b, e, d). b \<le> p \<and> p < e) t"

text \<open>Python's \<^verbatim>\<open>str\<close> of an integer: decimal digits, a minus sign for a negative number.\<close>

definition digit_char :: "nat \<Rightarrow> char" where
  "digit_char n = ''0123456789'' ! n"

fun str_nat :: "nat \<Rightarrow> string" where
  "str_nat n = (if n < 10 then [digit_char n] else str_nat (n div 10) @ [digit_char (n mod 10)])"

declare str_nat.simps [simp del]

definition str_int :: "int \<Rightarrow> string" where
  "str_int i = (if i < 0 then CHR ''-'' # str_nat (nat (- i)) else str_nat (nat i))"

text \<open>The name \<^verbatim>\<open>header + '_chimera_broken:' + str(start) + '-' + str(end)\<close> of a piece.\<close>

definition sub_name :: "string \<Rightarrow> int \<times> int \<Rightarrow> string" where
  "sub_name header b = header @ ''_chimera_broken:'' @ str_int (fst b) @ ''-'' @ str_int (snd b)"

subsection \<open>Breakpoint Adjuster: \<^verbatim>\<open>avoid_gff_intervals\<close>\<close>

record feature =
  seqname :: string
  start :: int
  end' :: int
  attributes :: string

text \<open>Lines 92 to 97: the tree of the features, those with \<open>start = end\<close> skipped.\<close>

fun gff_tree :: "feature list \<Rightarrow> (int \<times> int) interval_tree \<Rightarrow> py_error + (int \<times> int) interval_tree" where
  "gff_tree [] t = Inr t"
| "gff_tree (line # rest) t =
     (if start line = end' line then gff_tree rest t
      else (case tree_add (start line) (end' line) (start line, end' line) t of
              Inl e \<Rightarrow> Inl e
            | Inr t' \<Rightarrow> gff_tree rest t'))"

text \<open>
  Lines 103 to 108 (and 110 to 115): a coordinate is stepped up by one while some interval
  of the tree contains it. Every step moves it closer to the largest end in the tree.
\<close>

lemma tree_at_below_end:
  assumes "tree_at t p \<noteq> []"
  shows "p < Max (insert p ((\<lambda>iv. fst (snd iv)) ` set t))"
proof -
  from assms obtain iv where iv: "iv \<in> set t" "fst iv \<le> p" "p < fst (snd iv)"
    by (auto simp: tree_at_def filter_empty_conv)
  have "fst (snd iv) \<le> Max (insert p ((\<lambda>iv. fst (snd iv)) ` set t))"
    using iv(1) by (intro Max_ge) auto
  then show ?thesis using iv(3) by simp
qed

function probe :: "'d interval_tree \<Rightarrow> int \<Rightarrow> int" where
  "probe t p = (if tree_at t p \<noteq> [] then probe t (p + 1) else p)"
  by pat_completeness auto
termination
proof (relation "measure (\<lambda>(t, p). nat (Max (insert p ((\<lambda>iv. fst (snd iv)) ` set t)) - p))")
  show "wf (measure (\<lambda>(t::'d interval_tree, p). nat (Max (insert p ((\<lambda>iv. fst (snd iv)) ` set t)) - p)))"
    by simp
next
  fix t :: "'d interval_tree" and p :: int
  assume a: "tree_at t p \<noteq> []"
  let ?E = "(\<lambda>iv. fst (snd iv)) ` set t"
  have lt: "p < Max (insert p ?E)" using tree_at_below_end[OF a] .
  have "Max (insert (p + 1) ?E) = Max (insert p ?E)"
  proof (cases "?E = {}")
    case True
    then show ?thesis using lt by simp
  next
    case False
    then have "Max (insert p ?E) = max p (Max ?E)" "Max (insert (p + 1) ?E) = max (p + 1) (Max ?E)"
      by simp_all
    then show ?thesis using lt by (simp add: max_def split: if_splits)
  qed
  then show "((t, p + 1), (t, p)) \<in> measure (\<lambda>(t, p). nat (Max (insert p ((\<lambda>iv. fst (snd iv)) ` set t)) - p))"
    using lt by simp
qed

declare probe.simps [simp del]

definition adjust_border :: "(int \<times> int) interval_tree \<Rightarrow> int \<times> int \<Rightarrow> int \<times> int" where
  "adjust_border t i = (let i1 = (probe t (fst i), snd i) in (fst i1, probe t (snd i1)))"

text \<open>
  \<^verbatim>\<open>avoid_gff_intervals\<close>. Line 119 reads \<^verbatim>\<open>new_borders[-1]\<close>, an \<^verbatim>\<open>IndexError\<close> on an empty
  border list.
\<close>

definition avoid_gff_intervals :: "(int \<times> int) list \<Rightarrow> feature list \<Rightarrow> py_error + (int \<times> int) list" where
  "avoid_gff_intervals borders gff_ins =
     (case gff_tree gff_ins [] of
        Inl e \<Rightarrow> Inl e
      | Inr t \<Rightarrow>
          (let new_borders = map (adjust_border t) borders
           in if new_borders = [] then Inl IndexError
              else Inr (butlast new_borders @ [(fst (last new_borders), snd (last borders))])))"

subsection \<open>Sequence Splitter: \<^verbatim>\<open>break_contig\<close>\<close>

text \<open>
  Python's slice \<^verbatim>\<open>seq[a:b]\<close> for integers \<open>a\<close> and \<open>b\<close>: a negative index counts from the
  end, and both are then clamped to \<open>0 .. len(seq)\<close>.
\<close>

definition slice_index :: "nat \<Rightarrow> int \<Rightarrow> nat" where
  "slice_index n i = (if i < 0 then nat (max 0 (int n + i)) else min (nat i) n)"

definition py_slice :: "'a list \<Rightarrow> int \<Rightarrow> int \<Rightarrow> 'a list" where
  "py_slice xs a b =
     (let lo = slice_index (length xs) a; hi = slice_index (length xs) b
      in take (hi - lo) (drop lo xs))"

text \<open>Lines 160 to 162: one round of the loop on the state \<open>(contigs_dict, test_seq)\<close>.\<close>

definition break_step ::
  "string \<Rightarrow> string \<Rightarrow> int \<times> int \<Rightarrow> (string \<rightharpoonup> string) \<times> string \<Rightarrow> (string \<rightharpoonup> string) \<times> string" where
  "break_step header seq bp st =
     ((fst st)(sub_name header bp \<mapsto> py_slice seq (fst bp) (snd bp)),
      snd st @ py_slice seq (fst bp) (snd bp))"

text \<open>
  \<^verbatim>\<open>break_contig\<close> works on the caller's dictionary in place. The result is the dictionary
  as the call leaves it, and the outcome: the dictionary returned (the same object), or the
  exception raised. \<^verbatim>\<open>pop\<close> raises \<^verbatim>\<open>KeyError\<close> on a missing header, before anything is
  changed. The \<^verbatim>\<open>assert\<close> comes after the loop, so when it raises \<^verbatim>\<open>AssertionError\<close> the
  contig has been removed and every slice inserted.
\<close>

definition break_contig ::
  "(string \<rightharpoonup> string) \<Rightarrow> string \<Rightarrow> (int \<times> int) list
     \<Rightarrow> (string \<rightharpoonup> string) \<times> (py_error + (string \<rightharpoonup> string))" where
  "break_contig contigs_dict header break_points =
     (case contigs_dict header of
        None \<Rightarrow> (contigs_dict, Inl KeyError)
      | Some seq \<Rightarrow>
          (let (contigs_dict', test_seq) =
                 fold (break_step header seq) break_points (contigs_dict(header := None), [])
           in if test_seq = seq then (contigs_dict', Inr contigs_dict')
              else (contigs_dict', Inl AssertionError)))"

text \<open>
  An ordered border list for a sequence of length \<open>n\<close>: intervals (start \<open>\<le>\<close> end) of which
  each ends where the next starts, the first starting at 0 and the last ending at \<open>n\<close>.
  Such intervals do not overlap.
\<close>

fun contiguous :: "(int \<times> int) list \<Rightarrow> bool" where
  "contiguous (b1 # b2 # rest) = (snd b1 = fst b2 \<and> contiguous (b2 # rest))"
| "contiguous _ = True"

definition tiles :: "(int \<times> int) list \<Rightarrow> int \<Rightarrow> bool" where
  "tiles borders n =
     (borders \<noteq> [] \<and> fst (hd borders) = 0 \<and> snd (last borders) = n
      \<and> list_all (\<lambda>b. fst b \<le> snd b) borders \<and> contiguous borders)"

subsection \<open>Feature Remapper: \<^verbatim>\<open>update_gff\<close>\<close>

text \<open>Lines 138 to 140: the tree of the borders, each carrying itself as data.\<close>

fun border_tree :: "(int \<times> int) list \<Rightarrow> (int \<times> int) interval_tree \<Rightarrow> py_error + (int \<times> int) interval_tree" where
  "border_tree [] t = Inr t"
| "border_tree (i # rest) t =
     (case tree_add (fst i) (snd i) i t of
        Inl e \<Rightarrow> Inl e
      | Inr t' \<Rightarrow> border_tree rest t')"

text \<open>
  Lines 143 to 152 for one feature: the border its start lies in, found through the tree
  (the \<^verbatim>\<open>assert\<close> wants exactly one), and the feature renamed and shifted. The border found
  is one of \<open>borders\<close>, so \<^verbatim>\<open>borders.index\<close> finds it.
\<close>

definition locate :: "(int \<times> int) interval_tree \<Rightarrow> feature \<Rightarrow> py_error + (int \<times> int)" where
  "locate t i =
     (let query = tree_at t (start i)
      in if length query \<noteq> 1 then Inl AssertionError
         else Inr (fst (hd query), fst (snd (hd query))))"

definition relocate :: "string \<Rightarrow> int \<times> int \<Rightarrow> feature \<Rightarrow> feature" where
  "relocate name query_border i =
     i\<lparr>seqname := name, start := start i - fst query_border, end' := end' i - fst query_border\<rparr>"

fun remap_loop ::
  "(int \<times> int) interval_tree \<Rightarrow> (int \<times> int) list \<Rightarrow> string \<Rightarrow> feature list
     \<Rightarrow> (string \<rightharpoonup> feature list) \<Rightarrow> py_error + (string \<rightharpoonup> feature list)" where
  "remap_loop t borders contig_name [] features = Inr features"
| "remap_loop t borders contig_name (i # rest) features =
     (case locate t i of
        Inl e \<Rightarrow> Inl e
      | Inr query_border \<Rightarrow>
          (let break_number = first_index borders query_border;
               name = sub_name contig_name (borders ! break_number)
           in (case features name of
                 None \<Rightarrow> Inl KeyError
               | Some fs \<Rightarrow>
                   remap_loop t borders contig_name rest
                     (features(name \<mapsto> fs @ [relocate name query_border i])))))"

text \<open>
  \<^verbatim>\<open>update_gff\<close>: \<^verbatim>\<open>pop\<close> raises \<^verbatim>\<open>KeyError\<close> on a missing contig; lines 133 and 134 give every
  piece an empty list.
\<close>

definition update_gff ::
  "(string \<rightharpoonup> feature list) \<Rightarrow> (int \<times> int) list \<Rightarrow> string \<Rightarrow> py_error + (string \<rightharpoonup> feature list)" where
  "update_gff features borders contig_name =
     (case features contig_name of
        None \<Rightarrow> Inl KeyError
      | Some contig_feats \<Rightarrow>
          (let features1 = features(contig_name := None);
               features2 = fold (\<lambda>b f. f(sub_name contig_name b \<mapsto> [])) borders features1
           in (case border_tree borders [] of
                 Inl e \<Rightarrow> Inl e
               | Inr t \<Rightarrow> remap_loop t borders contig_name contig_feats features2)))"



subsection \<open>Example data\<close>

text \<open>
  An alignment record for the examples: chromosome, reference interval, query interval,
  query length and strand; its length is the reference span.
\<close>

definition aln :: "string \<Rightarrow> int \<times> int \<Rightarrow> int \<times> int \<Rightarrow> int \<Rightarrow> char \<Rightarrow> alignment" where
  "aln h r q ql s =
     \<lparr>ref_header = h, ref_start = fst r, ref_end = snd r, query_start = fst q, query_end = snd q,
      aln_len = snd r - fst r, query_len = ql, strand = s\<rparr>"

section \<open>Coverage Scorer: the sweep computes the length of the union\<close>

text \<open>
  One sweep step adds exactly the positions of the new interval that are not yet covered,
  provided everything covered lies below \<open>max_end\<close> and everything from the new start up to
  \<open>max_end\<close> is covered.
\<close>

lemma sweep_step_card:
  assumes fin: "finite C" and below: "\<forall>x\<in>C. x < m"
    and full: "\<forall>x. s \<le> x \<and> x < m \<longrightarrow> x \<in> C"
  shows "int (card (C \<union> {s..<e})) = int (card C) + max 0 (e - max s m)"
proof -
  have split: "C \<union> {s..<e} = C \<union> {max s m..<e}"
    using full by (auto simp: max_def)
  have disj: "C \<inter> {max s m..<e} = {}"
    using below by (auto simp: max_def)
  have "card (C \<union> {max s m..<e}) = card C + card {max s m..<e}"
    using fin disj by (simp add: card_Un_disjoint)
  then show ?thesis
    using split by (simp add: max_def)
qed

lemma sweep_invariant:
  assumes "sorted (map fst xs)" and "\<forall>iv\<in>set xs. lo \<le> fst iv" and "finite C"
    and "\<forall>x\<in>C. x < m" and "\<forall>x. lo \<le> x \<and> x < m \<longrightarrow> x \<in> C"
  shows "snd (fold sweep_step xs (m, int (card C)))
       = int (card (C \<union> (\<Union>iv\<in>set xs. {fst iv..<snd iv})))"
  using assms
proof (induction xs arbitrary: m C lo)
  case Nil
  then show ?case by simp
next
  case (Cons iv xs)
  obtain s e where iv: "iv = (s, e)" by (cases iv)
  let ?C = "C \<union> {s..<e}"
  have lo: "lo \<le> s" using Cons.prems(2) iv by simp
  have full: "\<forall>x. s \<le> x \<and> x < m \<longrightarrow> x \<in> C"
    using Cons.prems(5) lo by auto
  have step: "sweep_step iv (m, int (card C)) = (max m e, int (card ?C))"
    using sweep_step_card[OF Cons.prems(3) Cons.prems(4) full, of e]
    by (simp add: sweep_step_def iv Let_def)
  have "snd (fold sweep_step xs (max m e, int (card ?C)))
      = int (card (?C \<union> (\<Union>iv\<in>set xs. {fst iv..<snd iv})))"
  proof (rule Cons.IH[where lo = s])
    show "sorted (map fst xs)" using Cons.prems(1) by simp
    show "\<forall>iv\<in>set xs. s \<le> fst iv" using Cons.prems(1) iv by auto
    show "finite ?C" using Cons.prems(3) by simp
    show "\<forall>x\<in>?C. x < max m e" using Cons.prems(4) by auto
    show "\<forall>x. s \<le> x \<and> x < max m e \<longrightarrow> x \<in> ?C" using full by auto
  qed
  then show ?case
    using step by (simp add: iv Un_assoc)
qed

lemma union_length_card:
  assumes "\<forall>iv\<in>set ivs. 0 \<le> fst iv"
  shows "union_length ivs = int (card (\<Union>iv \<in> set ivs. {fst iv ..< snd iv}))"
proof -
  have "snd (fold sweep_step (sort_key fst ivs) (- 1, int (card ({}::int set))))
      = int (card ({} \<union> (\<Union>iv\<in>set (sort_key fst ivs). {fst iv..<snd iv})))"
  proof (rule sweep_invariant[where lo = 0])
    show "sorted (map fst (sort_key fst ivs))" by simp
    show "\<forall>iv\<in>set (sort_key fst ivs). 0 \<le> fst iv" using assms by simp
  qed auto
  then show ?thesis
    by (simp add: union_length_def)
qed

text \<open>
  Claim C3. For every list (finite multiset) of possibly overlapping reference intervals of
  one chromosome, in the 0-based reference coordinates of the data model, the covered
  length that the sort-and-sweep of \<^verbatim>\<open>get_ref_parts\<close> computes is the number of positions in
  the union of the intervals, as the naive definition counts them.
\<close>

theorem coverage_sweep_is_union:
  assumes "\<forall>iv\<in>set ivs. 0 \<le> fst iv"
  shows "union_length ivs = int (naive_union_length ivs)"
  using union_length_card[OF assms] by (simp add: naive_union_length_def)

theorem coverage_sweep_is_union_witness:
  "union_length [(5, 10), (0, 7), (20, 30), (8, 9), (7, 7)] = 20
   \<and> int (naive_union_length [(5, 10), (0, 7), (20, 30), (8, 9), (7, 7)]) = 20"
proof -
  have pre: "\<forall>iv\<in>set [(5, 10), (0, 7), (20, 30), (8, 9), (7, 7::int)]. (0::int) \<le> fst iv"
    by simp
  have ul: "union_length [(5, 10), (0, 7), (20, 30), (8, 9), (7, 7)] = 20"
    by (simp add: union_length_def sweep_step_def)
  show ?thesis
    using coverage_sweep_is_union[OF pre] ul by simp
qed

section \<open>Sub-contig names\<close>

text \<open>
  The decimal numeral of an integer determines it, and a numeral ends at the first
  character after its sign that is no digit; so the name of a piece determines its border.
\<close>

lemma digit_char_inj:
  assumes "n < 10" "m < 10" "digit_char n = digit_char m"
  shows "n = m"
proof -
  have d: "distinct ''0123456789''" by simp
  have "n < length ''0123456789''" "m < length ''0123456789''"
    using assms(1,2) by simp_all
  then show ?thesis
    using assms(3) nth_eq_iff_index_eq[OF d] unfolding digit_char_def by blast
qed

lemma digit_char_digit:
  assumes "n < 10"
  shows "digit_char n \<in> set ''0123456789''"
proof -
  have "n < length ''0123456789''" using assms by simp
  then show ?thesis unfolding digit_char_def by (rule nth_mem)
qed

lemma str_nat_digits: "str_nat n \<noteq> [] \<and> set (str_nat n) \<subseteq> set ''0123456789''"
proof (induction n rule: str_nat.induct)
  case (1 n)
  show ?case
  proof (cases "n < 10")
    case True
    then have "str_nat n = [digit_char n]" by (subst str_nat.simps) simp
    then show ?thesis using digit_char_digit[OF True] by simp
  next
    case False
    then have eq: "str_nat n = str_nat (n div 10) @ [digit_char (n mod 10)]"
      by (subst str_nat.simps) simp
    have "digit_char (n mod 10) \<in> set ''0123456789''"
      by (rule digit_char_digit) simp
    then show ?thesis using "1.IH"[OF False] unfolding eq by simp
  qed
qed

lemma str_nat_inj: "str_nat n = str_nat m \<Longrightarrow> n = m"
proof (induction n arbitrary: m rule: str_nat.induct)
  case (1 n)
  show ?case
  proof (cases "n < 10")
    case True
    then have n: "str_nat n = [digit_char n]" by (subst str_nat.simps) simp
    show ?thesis
    proof (cases "m < 10")
      case m: True
      then have "str_nat m = [digit_char m]" by (subst str_nat.simps) simp
      then show ?thesis using n "1.prems" True m digit_char_inj by simp
    next
      case False
      then have "str_nat m = str_nat (m div 10) @ [digit_char (m mod 10)]"
        by (subst str_nat.simps) simp
      then have "str_nat (m div 10) = []" using n "1.prems" by simp
      then show ?thesis using str_nat_digits[of "m div 10"] by simp
    qed
  next
    case False
    then have n: "str_nat n = str_nat (n div 10) @ [digit_char (n mod 10)]"
      by (subst str_nat.simps) simp
    show ?thesis
    proof (cases "m < 10")
      case True
      then have "str_nat m = [digit_char m]" by (subst str_nat.simps) simp
      then have "str_nat (n div 10) = []" using n "1.prems" by simp
      then show ?thesis using str_nat_digits[of "n div 10"] by simp
    next
      case m: False
      then have "str_nat m = str_nat (m div 10) @ [digit_char (m mod 10)]"
        by (subst str_nat.simps) simp
      then have eq: "str_nat (n div 10) = str_nat (m div 10)"
        "digit_char (n mod 10) = digit_char (m mod 10)"
        using n "1.prems" by simp_all
      have "n div 10 = m div 10" using "1.IH"[OF False eq(1)] .
      moreover have "n mod 10 = m mod 10"
        using eq(2) by (intro digit_char_inj) simp_all
      moreover have "n = 10 * (n div 10) + n mod 10" "m = 10 * (m div 10) + m mod 10"
        by simp_all
      ultimately show ?thesis
        by simp
    qed
  qed
qed

lemma digits_then_dash:
  assumes "set ds \<subseteq> set ''0123456789''" "set ds' \<subseteq> set ''0123456789''"
    and "ds @ CHR ''-'' # r = ds' @ CHR ''-'' # r'"
  shows "ds = ds' \<and> r = r'"
proof -
  define P where "P = (\<lambda>c. c \<in> set ''0123456789'')"
  have nd: "\<not> P CHR ''-''" unfolding P_def by simp
  have a: "\<And>c. c \<in> set ds \<Longrightarrow> P c" and b: "\<And>c. c \<in> set ds' \<Longrightarrow> P c"
    using assms(1,2) unfolding P_def by blast+
  have "takeWhile P (ds @ CHR ''-'' # r) = ds @ takeWhile P (CHR ''-'' # r)"
    using a by (rule takeWhile_append2)
  then have 1: "takeWhile P (ds @ CHR ''-'' # r) = ds" using nd by simp
  have "takeWhile P (ds' @ CHR ''-'' # r') = ds' @ takeWhile P (CHR ''-'' # r')"
    using b by (rule takeWhile_append2)
  then have 2: "takeWhile P (ds' @ CHR ''-'' # r') = ds'" using nd by simp
  have "ds = ds'" using 1 2 assms(3) by simp
  then show ?thesis using assms(3) by simp
qed

lemma str_int_then_dash:
  assumes "str_int a @ CHR ''-'' # r = str_int a' @ CHR ''-'' # r'"
  shows "a = a' \<and> r = r'"
proof -
  note dg = str_nat_digits
  have nodash: "hd (str_nat n) \<noteq> CHR ''-''" for n
  proof -
    have "hd (str_nat n) \<in> set (str_nat n)" using dg[of n] by simp
    then have "hd (str_nat n) \<in> set ''0123456789''" using dg[of n] by blast
    then show ?thesis by auto
  qed
  consider (nn) "a < 0" "a' < 0" | (pp) "\<not> a < 0" "\<not> a' < 0"
    | (np) "a < 0" "\<not> a' < 0" | (pn) "\<not> a < 0" "a' < 0" by blast
  then show ?thesis
  proof cases
    case nn
    then have "str_nat (nat (- a)) @ CHR ''-'' # r = str_nat (nat (- a')) @ CHR ''-'' # r'"
      using assms by (simp add: str_int_def)
    then have "str_nat (nat (- a)) = str_nat (nat (- a'))" "r = r'"
      using digits_then_dash[of "str_nat (nat (- a))" "str_nat (nat (- a'))" r r'] dg by blast+
    then have "nat (- a) = nat (- a')" "r = r'"
      using str_nat_inj by blast+
    then show ?thesis using nn by simp
  next
    case pp
    then have "str_nat (nat a) @ CHR ''-'' # r = str_nat (nat a') @ CHR ''-'' # r'"
      using assms by (simp add: str_int_def)
    then have "str_nat (nat a) = str_nat (nat a')" "r = r'"
      using digits_then_dash[of "str_nat (nat a)" "str_nat (nat a')" r r'] dg by blast+
    then have "nat a = nat a'" "r = r'"
      using str_nat_inj by blast+
    then show ?thesis using pp by simp
  next
    case np
    then have "CHR ''-'' # str_nat (nat (- a)) @ CHR ''-'' # r = str_nat (nat a') @ CHR ''-'' # r'"
      using assms by (simp add: str_int_def)
    then have "hd (str_nat (nat a') @ CHR ''-'' # r') = CHR ''-''"
      by (metis list.sel(1))
    then have "hd (str_nat (nat a')) = CHR ''-''"
      using dg[of "nat a'"] by simp
    then show ?thesis using nodash by blast
  next
    case pn
    then have "str_nat (nat a) @ CHR ''-'' # r = CHR ''-'' # str_nat (nat (- a')) @ CHR ''-'' # r'"
      using assms by (simp add: str_int_def)
    then have "hd (str_nat (nat a) @ CHR ''-'' # r) = CHR ''-''"
      by (metis list.sel(1))
    then have "hd (str_nat (nat a)) = CHR ''-''"
      using dg[of "nat a"] by simp
    then show ?thesis using nodash by blast
  qed
qed

lemma str_int_inj: "str_int a = str_int b \<Longrightarrow> a = b"
  using str_int_then_dash[of a "[]" b "[]"] by simp

lemma sub_name_inj:
  assumes "sub_name header b = sub_name header b'"
  shows "b = b'"
proof -
  have "str_int (fst b) @ CHR ''-'' # str_int (snd b) = str_int (fst b') @ CHR ''-'' # str_int (snd b')"
    using assms by (simp add: sub_name_def)
  then have "fst b = fst b'" "str_int (snd b) = str_int (snd b')"
    using str_int_then_dash by blast+
  then show ?thesis
    using str_int_inj by (simp add: prod_eq_iff)
qed

lemma sub_name_neq: "sub_name c b \<noteq> c"
proof
  assume "sub_name c b = c"
  then have "length (sub_name c b) = length c" by simp
  then show False by (simp add: sub_name_def)
qed

section \<open>Sequence Splitter: the slices of a tiling give the sequence back\<close>

lemma fold_break_step_snd:
  "snd (fold (break_step header seq) bps st)
     = snd st @ concat (map (\<lambda>bp. py_slice seq (fst bp) (snd bp)) bps)"
  by (induction bps arbitrary: st) (simp_all add: break_step_def)

lemma py_slice_nonneg:
  assumes "0 \<le> a" "a \<le> b" "b \<le> int (length xs)"
  shows "py_slice xs a b = take (nat b - nat a) (drop (nat a) xs)"
proof -
  have "nat a \<le> length xs" "nat b \<le> length xs"
    using assms by linarith+
  then show ?thesis
    using assms by (simp add: py_slice_def slice_index_def Let_def min_def)
qed

lemma py_slice_append:
  assumes "0 \<le> a" "a \<le> b" "b \<le> c" "c \<le> int (length xs)"
  shows "py_slice xs a b @ py_slice xs b c = py_slice xs a c"
proof -
  have "take (nat c - nat a) (drop (nat a) xs)
      = take ((nat b - nat a) + (nat c - nat b)) (drop (nat a) xs)"
    using assms by (simp add: nat_le_eq_zle)
  also have "\<dots> = take (nat b - nat a) (drop (nat a) xs)
                 @ take (nat c - nat b) (drop (nat b - nat a) (drop (nat a) xs))"
    by (simp only: take_add)
  also have "drop (nat b - nat a) (drop (nat a) xs) = drop (nat b) xs"
    using assms by (simp add: nat_le_eq_zle)
  finally show ?thesis
    using assms by (simp add: py_slice_nonneg)
qed

lemma contiguous_mono:
  assumes "bps \<noteq> []" "list_all (\<lambda>b. fst b \<le> snd b) bps" "contiguous bps"
  shows "fst (hd bps) \<le> snd (last bps)"
  using assms
proof (induction bps rule: contiguous.induct)
  case (1 b1 b2 rest)
  then show ?case by simp
qed simp_all

lemma concat_slices:
  assumes "bps \<noteq> []" "list_all (\<lambda>b. fst b \<le> snd b) bps" "contiguous bps"
    and "0 \<le> fst (hd bps)" "snd (last bps) \<le> int (length xs)"
  shows "concat (map (\<lambda>bp. py_slice xs (fst bp) (snd bp)) bps)
       = py_slice xs (fst (hd bps)) (snd (last bps))"
  using assms
proof (induction bps rule: contiguous.induct)
  case (1 b1 b2 rest)
  have mono: "fst b2 \<le> snd (last (b2 # rest))"
    using contiguous_mono[of "b2 # rest"] "1.prems" by simp
  have IH: "concat (map (\<lambda>bp. py_slice xs (fst bp) (snd bp)) (b2 # rest))
          = py_slice xs (fst b2) (snd (last (b2 # rest)))"
    using "1.IH" "1.prems" by simp
  have "py_slice xs (fst b1) (snd b1) @ py_slice xs (fst b2) (snd (last (b2 # rest)))
      = py_slice xs (fst b1) (snd (last (b2 # rest)))"
    using py_slice_append[of "fst b1" "snd b1" "snd (last (b2 # rest))" xs] "1.prems" mono
    by simp
  then show ?case using IH by simp
qed simp_all

text \<open>The intervals of a tiling are in increasing order, so no two of them overlap.\<close>

lemma contiguous_ordered:
  assumes "list_all (\<lambda>b. fst b \<le> snd b) bps" and "contiguous bps"
  shows "sorted_wrt (\<lambda>x y. snd x \<le> fst y) bps"
  using assms
proof (induction bps rule: contiguous.induct)
  case (1 b1 b2 rest)
  have tail: "sorted_wrt (\<lambda>x y. snd x \<le> fst y) (b2 # rest)"
    using "1.IH" "1.prems" by simp
  have "snd b1 \<le> fst y" if "y \<in> set (b2 # rest)" for y
  proof (cases "y = b2")
    case True
    then show ?thesis using "1.prems" by simp
  next
    case False
    then have "y \<in> set rest" using that by simp
    then have "snd b2 \<le> fst y" using tail by simp
    then show ?thesis using "1.prems" by simp
  qed
  then show ?case using tail by simp
qed simp_all

lemma tiles_disjoint:
  assumes "tiles bps n" and "i < j" and "j < length bps"
  shows "{fst (bps ! i) ..< snd (bps ! i)} \<inter> {fst (bps ! j) ..< snd (bps ! j)} = {}"
proof -
  have "sorted_wrt (\<lambda>x y. snd x \<le> fst y) bps"
    using assms(1) by (simp add: tiles_def contiguous_ordered)
  then have "snd (bps ! i) \<le> fst (bps ! j)"
    using assms(2,3) by (simp add: sorted_wrt_iff_nth_less)
  then show ?thesis by auto
qed

lemma py_slice_whole: "py_slice xs 0 (int (length xs)) = xs"
  by (simp add: py_slice_def slice_index_def)

lemma tiles_concat:
  assumes "tiles bps (int (length xs))"
  shows "concat (map (\<lambda>bp. py_slice xs (fst bp) (snd bp)) bps) = xs"
  using assms concat_slices[of bps xs] by (simp add: tiles_def py_slice_whole)

lemma fold_break_step_pieces:
  "(\<forall>bp\<in>set bps. fst (fold (break_step header seq) bps st) (sub_name header bp)
        = Some (py_slice seq (fst bp) (snd bp)))
   \<and> (\<forall>k. k \<notin> sub_name header ` set bps \<longrightarrow> fst (fold (break_step header seq) bps st) k = fst st k)"
proof (induction bps rule: rev_induct)
  case Nil
  then show ?case by simp
next
  case (snoc x xs)
  let ?d = "fst (fold (break_step header seq) xs st)"
  have step: "fst (fold (break_step header seq) (xs @ [x]) st)
            = ?d(sub_name header x \<mapsto> py_slice seq (fst x) (snd x))"
    by (simp add: break_step_def)
  have a: "fst (fold (break_step header seq) (xs @ [x]) st) (sub_name header bp)
        = Some (py_slice seq (fst bp) (snd bp))" if "bp \<in> set (xs @ [x])" for bp
  proof (cases "sub_name header bp = sub_name header x")
    case True
    then have "bp = x" by (rule sub_name_inj)
    then show ?thesis unfolding step by simp
  next
    case False
    then have "bp \<in> set xs" using that by auto
    then show ?thesis unfolding step using False snoc.IH by simp
  qed
  have b: "fst (fold (break_step header seq) (xs @ [x]) st) k = fst st k"
    if "k \<notin> sub_name header ` set (xs @ [x])" for k
    unfolding step using that snoc.IH by auto
  show ?case using a b by blast
qed

lemma break_contig_state:
  assumes "contigs_dict header = Some seq"
  shows "fst (break_contig contigs_dict header bps)
           = fst (fold (break_step header seq) bps (contigs_dict(header := None), []))"
    and "snd (break_contig contigs_dict header bps)
           = (if concat (map (\<lambda>bp. py_slice seq (fst bp) (snd bp)) bps) = seq
              then Inr (fst (break_contig contigs_dict header bps))
              else Inl AssertionError)"
  using assms fold_break_step_snd[of header seq bps "(contigs_dict(header := None), [])"]
  by (simp_all add: break_contig_def Let_def case_prod_beta)

text \<open>
  Claim C1, as amended. For a contig that is in the dictionary: when the border list is an
  ordered tiling of the sequence (contiguous intervals from 0 to the sequence length), the
  slices taken in border order concatenate to the sequence. \<^verbatim>\<open>break_contig\<close> returns the
  dictionary exactly when the slices concatenate to the sequence and raises
  \<^verbatim>\<open>AssertionError\<close> otherwise. Either way the caller's dictionary has by then lost the
  contig and holds every slice under the name of its border, entries of other names
  untouched: the check comes after the insertions, which are not undone.
\<close>

theorem break_contig_round_trip:
  assumes "contigs_dict header = Some seq"
  shows "(tiles break_points (int (length seq)) \<longrightarrow>
            concat (map (\<lambda>bp. py_slice seq (fst bp) (snd bp)) break_points) = seq)
       \<and> snd (break_contig contigs_dict header break_points)
           = (if concat (map (\<lambda>bp. py_slice seq (fst bp) (snd bp)) break_points) = seq
              then Inr (fst (break_contig contigs_dict header break_points))
              else Inl AssertionError)
       \<and> fst (break_contig contigs_dict header break_points) header = None
       \<and> (\<forall>bp\<in>set break_points.
             fst (break_contig contigs_dict header break_points) (sub_name header bp)
               = Some (py_slice seq (fst bp) (snd bp)))
       \<and> (\<forall>k. k \<noteq> header \<and> k \<notin> sub_name header ` set break_points \<longrightarrow>
             fst (break_contig contigs_dict header break_points) k = contigs_dict k)"
proof -
  have st: "fst (break_contig contigs_dict header break_points)
           = fst (fold (break_step header seq) break_points (contigs_dict(header := None), []))"
    "snd (break_contig contigs_dict header break_points)
           = (if concat (map (\<lambda>bp. py_slice seq (fst bp) (snd bp)) break_points) = seq
              then Inr (fst (break_contig contigs_dict header break_points))
              else Inl AssertionError)"
    using assms by (rule break_contig_state)+
  note pc = fold_break_step_pieces[of break_points header seq "(contigs_dict(header := None), [])"]
  have nh: "header \<notin> sub_name header ` set break_points"
    using sub_name_neq[of header] by (metis imageE)
  have gone: "fst (break_contig contigs_dict header break_points) header = None"
    unfolding st(1) using pc nh by simp
  have kept: "\<forall>k. k \<noteq> header \<and> k \<notin> sub_name header ` set break_points \<longrightarrow>
             fst (break_contig contigs_dict header break_points) k = contigs_dict k"
    unfolding st(1) using pc by simp
  have pieces: "\<forall>bp\<in>set break_points.
             fst (break_contig contigs_dict header break_points) (sub_name header bp)
               = Some (py_slice seq (fst bp) (snd bp))"
    unfolding st(1) using pc by blast
  show ?thesis
    using tiles_concat[of break_points seq] st(2) gone pieces kept by blast
qed

theorem break_contig_round_trip_witness:
  "tiles [(0, 3), (3, 10)] (int (length ''abcdefghij''))
   \<and> concat (map (\<lambda>bp. py_slice ''abcdefghij'' (fst bp) (snd bp)) [(0, 3), (3, 10)]) = ''abcdefghij''
   \<and> snd (break_contig [''ctg'' \<mapsto> ''abcdefghij'', ''other'' \<mapsto> ''xyz''] ''ctg'' [(0, 3), (3, 10)])
       = Inr (fst (break_contig [''ctg'' \<mapsto> ''abcdefghij'', ''other'' \<mapsto> ''xyz''] ''ctg'' [(0, 3), (3, 10)]))
   \<and> fst (break_contig [''ctg'' \<mapsto> ''abcdefghij'', ''other'' \<mapsto> ''xyz''] ''ctg'' [(0, 3), (3, 10)]) ''ctg''
       = None
   \<and> fst (break_contig [''ctg'' \<mapsto> ''abcdefghij'', ''other'' \<mapsto> ''xyz''] ''ctg'' [(0, 3), (3, 10)])
         ''ctg_chimera_broken:0-3'' = Some ''abc''
   \<and> fst (break_contig [''ctg'' \<mapsto> ''abcdefghij'', ''other'' \<mapsto> ''xyz''] ''ctg'' [(0, 3), (3, 10)])
         ''ctg_chimera_broken:3-10'' = Some ''defghij''"
proof -
  let ?D = "[''ctg'' \<mapsto> ''abcdefghij'', ''other'' \<mapsto> ''xyz'']"
  let ?B = "[(0, 3), (3, 10)] :: (int \<times> int) list"
  have h: "?D ''ctg'' = Some ''abcdefghij''" by simp
  have t: "tiles ?B (int (length ''abcdefghij''))" by (simp add: tiles_def)
  have n1: "sub_name ''ctg'' (0, 3) = ''ctg_chimera_broken:0-3''" by code_simp
  have n2: "sub_name ''ctg'' (3, 10) = ''ctg_chimera_broken:3-10''" by code_simp
  have s1: "py_slice ''abcdefghij'' (fst (0::int, 3::int)) (snd (0::int, 3::int)) = ''abc''" by code_simp
  have s2: "py_slice ''abcdefghij'' (fst (3::int, 10::int)) (snd (3::int, 10::int)) = ''defghij''" by code_simp
  note T = break_contig_round_trip[of ?D "''ctg''" "''abcdefghij''" ?B, OF h]
  have c: "concat (map (\<lambda>bp. py_slice ''abcdefghij'' (fst bp) (snd bp)) ?B) = ''abcdefghij''"
    using T[THEN conjunct1] t by (rule mp)
  have r: "snd (break_contig ?D ''ctg'' ?B) = Inr (fst (break_contig ?D ''ctg'' ?B))"
    using T[THEN conjunct2, THEN conjunct1] c by simp
  have g: "fst (break_contig ?D ''ctg'' ?B) ''ctg'' = None"
    using T[THEN conjunct2, THEN conjunct2, THEN conjunct1] .
  have p: "\<forall>bp\<in>set ?B. fst (break_contig ?D ''ctg'' ?B) (sub_name ''ctg'' bp)
               = Some (py_slice ''abcdefghij'' (fst bp) (snd bp))"
    using T[THEN conjunct2, THEN conjunct2, THEN conjunct2, THEN conjunct1] .
  have p1: "fst (break_contig ?D ''ctg'' ?B) ''ctg_chimera_broken:0-3'' = Some ''abc''"
    using p[rule_format, of "(0, 3)"] unfolding n1 s1 by simp
  have p2: "fst (break_contig ?D ''ctg'' ?B) ''ctg_chimera_broken:3-10'' = Some ''defghij''"
    using p[rule_format, of "(3, 10)"] unfolding n2 s2 by simp
  show ?thesis
    using t c r g p1 p2 by (intro conjI)
qed

text \<open>
  Claim C1 as stated fails in its last part: on borders whose slices do not give the
  sequence back the assertion fails, but the caller's dictionary has already lost the
  contig and received the pieces.
\<close>

theorem break_contig_leaves_pieces:
  "snd (break_contig [''ctg'' \<mapsto> ''abcdefghij''] ''ctg'' [(0, 5), (5, 3), (3, 10)]) = Inl AssertionError
   \<and> fst (break_contig [''ctg'' \<mapsto> ''abcdefghij''] ''ctg'' [(0, 5), (5, 3), (3, 10)]) ''ctg'' = None
   \<and> fst (break_contig [''ctg'' \<mapsto> ''abcdefghij''] ''ctg'' [(0, 5), (5, 3), (3, 10)])
        ''ctg_chimera_broken:0-5'' = Some ''abcde''
   \<and> fst (break_contig [''ctg'' \<mapsto> ''abcdefghij''] ''ctg'' [(0, 5), (5, 3), (3, 10)])
        ''ctg_chimera_broken:3-10'' = Some ''defghij''"
proof -
  have "snd (break_contig [''ctg'' \<mapsto> ''abcdefghij''] ''ctg'' [(0, 5), (5, 3), (3, 10)]) = Inl AssertionError"
    by (simp add: break_contig_def break_step_def py_slice_def slice_index_def)
  moreover have "fst (break_contig [''ctg'' \<mapsto> ''abcdefghij''] ''ctg'' [(0, 5), (5, 3), (3, 10)]) ''ctg'' = None"
    by code_simp
  moreover have "fst (break_contig [''ctg'' \<mapsto> ''abcdefghij''] ''ctg'' [(0, 5), (5, 3), (3, 10)])
        ''ctg_chimera_broken:0-5'' = Some ''abcde''"
    by code_simp
  moreover have "fst (break_contig [''ctg'' \<mapsto> ''abcdefghij''] ''ctg'' [(0, 5), (5, 3), (3, 10)])
        ''ctg_chimera_broken:3-10'' = Some ''defghij''"
    by code_simp
  ultimately show ?thesis by (intro conjI)
qed

section \<open>Interchromosomal Clusterer: the walk and its borders\<close>

lemma switch_points_short: "length xs < 3 \<Longrightarrow> switch_points cur xs = []"
  by (cases "(cur, xs)" rule: switch_points.cases) simp_all

text \<open>
  The loop of \<^verbatim>\<open>get_borders\<close> from index \<open>i + 1\<close> on computes the walk over the sorted
  alignments from position \<open>i\<close> on (the previous alignment of index \<open>i + 1\<close>).
\<close>

lemma borders_loop_walk:
  assumes valid: "\<forall>j\<in>set order. j < length (rows alns)"
    and srt: "srt = map (\<lambda>j. rows alns ! j) order"
    and refs: "refs = map (\<lambda>j. ref_headers alns ! j) order"
  shows "borders_loop refs alns order [Suc i..<length order - 1] cur bs
       = Inr (bs @ switch_points cur (drop i srt))"
proof (induction "length order - 1 - Suc i" arbitrary: i cur bs)
  case 0
  then have le: "length order - 1 \<le> Suc i" by simp
  have nil: "[Suc i..<length order - 1] = []"
    using le by (simp only: upt_conv_Nil)
  have "length (drop i srt) < 3"
    using le by (simp add: srt)
  then have "switch_points cur (drop i srt) = []"
    by (rule switch_points_short)
  then show ?case
    unfolding nil by simp
next
  case (Suc k)
  have lt: "Suc i < length order - 1" using Suc.hyps(2) by simp
  have upt: "[Suc i..<length order - 1] = Suc i # [Suc (Suc i)..<length order - 1]"
    using lt by (simp add: upt_conv_Cons)
  have len: "i < length srt" "Suc i < length srt" "Suc (Suc i) < length srt"
    using lt by (simp_all add: srt)
  have dr: "drop i srt = srt ! i # srt ! Suc i # srt ! Suc (Suc i) # drop (Suc (Suc (Suc i))) srt"
    using Cons_nth_drop_Suc[OF len(1)] Cons_nth_drop_Suc[OF len(2)] Cons_nth_drop_Suc[OF len(3)]
    by simp
  have dr': "drop (Suc i) srt = srt ! Suc i # srt ! Suc (Suc i) # drop (Suc (Suc (Suc i))) srt"
    using Cons_nth_drop_Suc[OF len(2)] Cons_nth_drop_Suc[OF len(3)]
    by simp
  have ord: "order ! i < length (rows alns)" "order ! Suc i < length (rows alns)"
    "order ! Suc (Suc i) < length (rows alns)"
    using valid len by (simp_all add: srt)
  have r1: "refs ! Suc i = ref_header (srt ! Suc i)"
    "refs ! Suc (Suc i) = ref_header (srt ! Suc (Suc i))"
    using len ord by (simp_all add: ref_headers_def srt refs)
  have g1: "getitem order i = Inr (order ! i)"
    using len by (simp add: getitem_def srt)
  have g2: "getitem (query_ends alns) (order ! i) = Inr (query_end (srt ! i))"
    using len ord by (simp add: getitem_def query_ends_def srt)
  have IH: "\<And>cur bs. borders_loop refs alns order [Suc (Suc i)..<length order - 1] cur bs
       = Inr (bs @ switch_points cur
               (srt ! Suc i # srt ! Suc (Suc i) # drop (Suc (Suc (Suc i))) srt))"
    using Suc.hyps(1)[of "Suc i"] Suc.hyps(2) by (simp add: dr')
  show ?case
    unfolding upt dr
    using IH by (simp add: r1 g1 g2)
qed

lemma get_borders_walk:
  assumes valid: "\<forall>j\<in>set order. j < length (rows alns)" and ne: "order \<noteq> []"
  shows "get_borders (map (\<lambda>j. ref_headers alns ! j) order) alns order
       = Inr (consecutive_pairs
           (0 # switch_points (ref_header (rows alns ! hd order)) (map (\<lambda>j. rows alns ! j) order)
              @ [query_len (hd (rows alns))]))"
proof -
  obtain j js where order: "order = j # js" using ne by (cases order) auto
  have j: "j < length (rows alns)" using valid order by simp
  then obtain a as where rows: "rows alns = a # as" by (cases "rows alns") auto
  have loop: "borders_loop (map (\<lambda>j. ref_headers alns ! j) order) alns order
                [Suc 0..<length order - 1] (ref_headers alns ! j) [0]
            = Inr ([0] @ switch_points (ref_headers alns ! j) (drop 0 (map (\<lambda>j. rows alns ! j) order)))"
    using valid by (rule borders_loop_walk) simp_all
  have hd: "ref_headers alns ! j = ref_header (rows alns ! j)"
    using j by (simp add: ref_headers_def)
  have ql: "query_lens alns = query_len a # map query_len as"
    by (simp add: query_lens_def rows)
  have "get_borders (map (\<lambda>j. ref_headers alns ! j) order) alns order
       = Inr (consecutive_pairs
           (0 # switch_points (ref_headers alns ! j) (map (\<lambda>j. rows alns ! j) order)
              @ [query_len a]))"
    using loop by (simp add: get_borders_def order ql)
  then show ?thesis
    by (simp add: hd order rows)
qed

lemma sorted_triples_mset:
  fixes f g :: "nat \<Rightarrow> int"
  shows "mset (map (\<lambda>t. snd (snd t)) (sort (map (\<lambda>i. (f i, g i, i)) [0..<n]))) = mset [0..<n]"
proof -
  let ?ts = "map (\<lambda>i. (f i, g i, i)) [0..<n]"
  have "mset (map (\<lambda>t. snd (snd t)) (sort ?ts)) = image_mset (\<lambda>t. snd (snd t)) (mset (sort ?ts))"
    by simp
  also have "\<dots> = image_mset (\<lambda>t. snd (snd t)) (mset ?ts)"
    by simp
  also have "\<dots> = mset [0..<n]"
    by (simp add: multiset.map_comp comp_def)
  finally show ?thesis .
qed

lemma sorted_triples_fst:
  fixes f g :: "nat \<Rightarrow> int"
  shows "map f (map (\<lambda>t. snd (snd t)) (sort (map (\<lambda>i. (f i, g i, i)) [0..<n])))
       = map fst (sort (map (\<lambda>i. (f i, g i, i)) [0..<n]))"
proof -
  let ?ts = "map (\<lambda>i. (f i, g i, i)) [0..<n]"
  have "\<forall>t\<in>set (sort ?ts). f (snd (snd t)) = fst t"
    by auto
  then show ?thesis
    by simp
qed

lemma sorted_map_fst:
  fixes ts :: "(int \<times> int \<times> nat) list"
  assumes "sorted ts"
  shows "sorted (map fst ts)"
proof -
  have "sorted_wrt (\<lambda>x y. fst x \<le> fst y) ts"
    using assms by (rule sorted_wrt_mono_rel[rotated]) (auto simp: less_eq_prod_def)
  then show ?thesis
    by (simp add: sorted_wrt_map)
qed

lemma query_order_mset: "mset (query_order ca) = mset [0..<length (rows ca)]"
  unfolding query_order_def ref_headers_def
  using sorted_triples_mset[of "\<lambda>i. query_starts ca ! i" "\<lambda>i. query_ends ca ! i" "length (rows ca)"]
  by simp

lemma query_order_set: "set (query_order ca) = {0..<length (rows ca)}"
  using query_order_mset[of ca] by (metis mset_eq_setD set_upt)

lemma query_order_length: "length (query_order ca) = length (rows ca)"
  using query_order_mset[of ca] by (metis mset_eq_length length_upt diff_zero)

lemma in_query_order_mset: "mset (in_query_order ca) = mset (rows ca)"
proof -
  have "mset (in_query_order ca) = image_mset (\<lambda>i. rows ca ! i) (mset (query_order ca))"
    by (simp add: in_query_order_def)
  also have "\<dots> = mset (map (\<lambda>i. rows ca ! i) [0..<length (rows ca)])"
    by (simp add: query_order_mset)
  also have "\<dots> = mset (rows ca)"
    by (simp add: map_nth)
  finally show ?thesis .
qed

lemma in_query_order_sorted: "sorted (map query_start (in_query_order ca))"
proof -
  let ?ts = "map (\<lambda>i. (query_starts ca ! i, query_ends ca ! i, i)) [0..<length (rows ca)]"
  have "map query_start (in_query_order ca) = map (\<lambda>i. query_starts ca ! i) (query_order ca)"
    using query_order_set[of ca] by (simp add: in_query_order_def query_starts_def)
  also have "\<dots> = map fst (sort ?ts)"
    unfolding query_order_def ref_headers_def
    using sorted_triples_fst[of "\<lambda>i. query_starts ca ! i" "\<lambda>i. query_ends ca ! i" "length (rows ca)"]
    by simp
  finally show ?thesis
    by (simp add: sorted_map_fst)
qed

lemma consecutive_pairs_zip: "consecutive_pairs xs = zip xs (tl xs)"
  by (rule nth_equalityI) (auto simp: consecutive_pairs_def nth_tl)

lemma consecutive_pairs_ends:
  "consecutive_pairs (a # mid @ [z]) \<noteq> []"
  "fst (hd (consecutive_pairs (a # mid @ [z]))) = a"
  "snd (last (consecutive_pairs (a # mid @ [z]))) = z"
proof -
  let ?xs = "a # mid @ [z]"
  show ne: "consecutive_pairs ?xs \<noteq> []"
    by (simp add: consecutive_pairs_zip)
  show "fst (hd (consecutive_pairs ?xs)) = a"
    by (cases mid) (simp_all add: consecutive_pairs_zip)
  have "map snd (consecutive_pairs ?xs) = mid @ [z]"
    by (simp add: consecutive_pairs_zip map_snd_zip_take)
  then have "last (map snd (consecutive_pairs ?xs)) = z"
    by simp
  then show "snd (last (consecutive_pairs ?xs)) = z"
    using ne by (simp add: last_map)
qed

lemma consecutive_pairs_single: "consecutive_pairs [a, z] = [(a, z)]"
  by (simp add: consecutive_pairs_zip)

lemma switch_points_one_ref:
  assumes "\<forall>a\<in>set xs. ref_header a = cur"
  shows "switch_points cur xs = []"
  using assms
proof (induction xs)
  case Nil
  then show ?case by simp
next
  case (Cons prev xs)
  have IH: "switch_points cur xs = []" using Cons by simp
  show ?case
  proof (cases xs)
    case Nil
    then show ?thesis by simp
  next
    case c1: (Cons this ys)
    show ?thesis
    proof (cases ys)
      case Nil
      then show ?thesis using c1 by simp
    next
      case c2: (Cons nxt rest)
      have "ref_header this = cur" using Cons.prems c1 by simp
      then show ?thesis using IH c1 c2 by simp
    qed
  qed
qed

lemma cluster_contig_alns_result:
  fixes alns :: "string \<rightharpoonup> contig_alignment"
  assumes "alns contig_name = Some ctg_alns0"
    and "rows (filter_ref_chroms chroms ctg_alns0) \<noteq> []"
  defines "ctg \<equiv> filter_ref_chroms chroms ctg_alns0"
  shows "cluster_contig_alns contig_name alns chroms l
       = Inr (alns(contig_name \<mapsto> ctg),
              consecutive_pairs
                (0 # switch_points (ref_header (hd (in_query_order ctg))) (in_query_order ctg)
                   @ [query_len (hd (rows ctg))]))"
proof -
  let ?order = "query_order ctg"
  have ne: "?order \<noteq> []"
    using assms(2) query_order_length[of ctg] by (auto simp: ctg_def)
  have valid: "\<forall>j\<in>set ?order. j < length (rows ctg)"
    by (simp add: query_order_set)
  have gb: "get_borders (map (\<lambda>j. ref_headers ctg ! j) ?order) ctg ?order
          = Inr (consecutive_pairs
                (0 # switch_points (ref_header (hd (in_query_order ctg))) (in_query_order ctg)
                   @ [query_len (hd (rows ctg))]))"
    using get_borders_walk[OF valid ne] ne
    by (simp add: in_query_order_def hd_map)
  show ?thesis
    using assms(1) gb by (simp add: cluster_contig_alns_def Let_def ctg_def)
qed

lemma cluster_contig_alns_empty:
  fixes alns :: "string \<rightharpoonup> contig_alignment"
  assumes "alns contig_name = Some ctg_alns0"
    and "rows (filter_ref_chroms chroms ctg_alns0) = []"
  shows "cluster_contig_alns contig_name alns chroms l = Inl IndexError"
  using assms
  by (simp add: cluster_contig_alns_def get_borders_def query_order_def ref_headers_def)

text \<open>
  Claim C7. On a contig whose filtered alignment set is not empty,
  \<^verbatim>\<open>cluster_contig_alns\<close> returns the consecutive pairs of 0, the breakpoints of the walk and
  the full query length, where the walk goes over the alignments sorted by query start and
  emits the previous alignment's query end exactly where the chromosome at the position and
  the next one both differ from \<open>current_ref\<close> (which starts as the first chromosome and
  becomes the chromosome at the position on each trigger). The borders begin at 0 and end at
  the query length, and when the walk never triggers, or all alignments are on one
  chromosome, the result is the single interval over the whole contig.
\<close>

theorem cluster_walk:
  fixes alns :: "string \<rightharpoonup> contig_alignment"
  assumes "alns contig_name = Some ctg_alns0"
    and "rows (filter_ref_chroms chroms ctg_alns0) \<noteq> []"
  defines "ctg \<equiv> filter_ref_chroms chroms ctg_alns0"
  defines "srt \<equiv> in_query_order ctg"
  defines "ql \<equiv> query_len (hd (rows ctg))"
  shows "\<exists>ivs. cluster_contig_alns contig_name alns chroms l = Inr (alns(contig_name \<mapsto> ctg), ivs)
       \<and> ivs = consecutive_pairs (0 # switch_points (ref_header (hd srt)) srt @ [ql])
       \<and> fst (hd ivs) = 0 \<and> snd (last ivs) = ql
       \<and> (switch_points (ref_header (hd srt)) srt = [] \<longrightarrow> ivs = [(0, ql)])
       \<and> ((\<exists>c. \<forall>a\<in>set (rows ctg). ref_header a = c) \<longrightarrow> ivs = [(0, ql)])
       \<and> sorted (map query_start srt) \<and> mset srt = mset (rows ctg)"
proof -
  let ?ivs = "consecutive_pairs (0 # switch_points (ref_header (hd srt)) srt @ [ql])"
  have res: "cluster_contig_alns contig_name alns chroms l = Inr (alns(contig_name \<mapsto> ctg), ?ivs)"
    using cluster_contig_alns_result[of alns contig_name ctg_alns0 chroms l] assms(1,2)
    by (simp add: ctg_def srt_def ql_def)
  have one: "(\<exists>c. \<forall>a\<in>set (rows ctg). ref_header a = c) \<longrightarrow> ?ivs = [(0, ql)]"
  proof
    assume "\<exists>c. \<forall>a\<in>set (rows ctg). ref_header a = c"
    then obtain c where c: "\<forall>a\<in>set (rows ctg). ref_header a = c" by blast
    have set: "set srt = set (rows ctg)"
      using in_query_order_mset[of ctg] by (metis mset_eq_setD srt_def)
    have "srt \<noteq> []" using set assms(2) by (auto simp: ctg_def)
    then have "hd srt \<in> set srt" by simp
    then have "ref_header (hd srt) = c" using c set by simp
    then have "switch_points (ref_header (hd srt)) srt = []"
      using c set by (intro switch_points_one_ref) simp
    then show "?ivs = [(0, ql)]"
      by (simp add: consecutive_pairs_single)
  qed
  show ?thesis
    using res one consecutive_pairs_ends(2,3)[of 0 "switch_points (ref_header (hd srt)) srt" ql]
      in_query_order_sorted[of ctg] in_query_order_mset[of ctg]
    by (simp add: consecutive_pairs_single srt_def)
qed

theorem cluster_walk_witness:
  "\<exists>m. cluster_contig_alns ''ctg''
      [''ctg'' \<mapsto> \<lparr>contig = ''ctg'', rows =
         [aln ''chr2'' (0, 50) (100, 150) 200 CHR ''+'',
          aln ''chr1'' (0, 100) (0, 100) 200 CHR ''+'',
          aln ''chr3'' (0, 70) (20, 90) 200 CHR ''+'',
          aln ''chr2'' (50, 100) (150, 200) 200 CHR ''+'']\<rparr>]
      [''chr1'', ''chr2''] 0
    = Inr (m, [(0, 100), (100, 200)])"
proof -
  let ?ca = "\<lparr>contig = ''ctg'', rows =
         [aln ''chr2'' (0, 50) (100, 150) 200 CHR ''+'',
          aln ''chr1'' (0, 100) (0, 100) 200 CHR ''+'',
          aln ''chr3'' (0, 70) (20, 90) 200 CHR ''+'',
          aln ''chr2'' (50, 100) (150, 200) 200 CHR ''+'']\<rparr>"
  let ?ctg = "filter_ref_chroms [''chr1'', ''chr2''] ?ca"
  have h1: "[''ctg'' \<mapsto> ?ca] ''ctg'' = Some ?ca" by simp
  have h2: "rows ?ctg \<noteq> []" by code_simp
  have ev: "consecutive_pairs (0 # switch_points (ref_header (hd (in_query_order ?ctg))) (in_query_order ?ctg)
              @ [query_len (hd (rows ?ctg))]) = [(0, 100), (100, 200)]"
    by code_simp
  show ?thesis
    using cluster_walk[of "[''ctg'' \<mapsto> ?ca]" "''ctg''" ?ca "[''chr1'', ''chr2'']" 0] h1 h2 ev
    by simp
qed

text \<open>
  Claim C2. The borders of the Clusterer are contiguous and run from 0 to the query length,
  but they need not be free of overlap: the breakpoints are query ends of alignments sorted
  by query start, and these need not increase. Here a long alignment to chr1 contains two
  short alignments to chr2; the Clusterer returns \<open>(0, 10), (10, 4), (4, 20)\<close>, which is no
  tiling of the contig of length 20, and the assertion of \<^verbatim>\<open>break_contig\<close> fails on it.
\<close>

theorem clusterer_borders_overlap:
  "(case cluster_contig_alns ''ctg''
      [''ctg'' \<mapsto> \<lparr>contig = ''ctg'', rows =
         [aln ''chr1'' (0, 10) (0, 10) 20 CHR ''+'',
          aln ''chr2'' (0, 1) (1, 2) 20 CHR ''+'',
          aln ''chr2'' (2, 3) (3, 4) 20 CHR ''+'',
          aln ''chr1'' (12, 13) (5, 6) 20 CHR ''+'',
          aln ''chr1'' (14, 15) (7, 8) 20 CHR ''+'']\<rparr>]
      [''chr1'', ''chr2''] 0
    of Inl e \<Rightarrow> Inl e | Inr r \<Rightarrow> Inr (snd r)) = Inr [(0, 10), (10, 4), (4, 20)]
   \<and> \<not> tiles [(0, 10), (10, 4), (4, 20)] 20
   \<and> snd (break_contig [''ctg'' \<mapsto> ''abcdefghijklmnopqrst''] ''ctg'' [(0, 10), (10, 4), (4, 20)])
       = Inl AssertionError"
proof -
  have "(case cluster_contig_alns ''ctg''
      [''ctg'' \<mapsto> \<lparr>contig = ''ctg'', rows =
         [aln ''chr1'' (0, 10) (0, 10) 20 CHR ''+'',
          aln ''chr2'' (0, 1) (1, 2) 20 CHR ''+'',
          aln ''chr2'' (2, 3) (3, 4) 20 CHR ''+'',
          aln ''chr1'' (12, 13) (5, 6) 20 CHR ''+'',
          aln ''chr1'' (14, 15) (7, 8) 20 CHR ''+'']\<rparr>]
      [''chr1'', ''chr2''] 0
    of Inl e \<Rightarrow> Inl e | Inr r \<Rightarrow> Inr (snd r)) = Inr [(0, 10), (10, 4), (4, 20)]"
    by code_simp
  moreover have "\<not> tiles [(0, 10), (10, 4), (4, 20)] 20"
    by (simp add: tiles_def)
  moreover have "snd (break_contig [''ctg'' \<mapsto> ''abcdefghijklmnopqrst''] ''ctg'' [(0, 10), (10, 4), (4, 20)])
       = Inl AssertionError"
    by (simp add: break_contig_def break_step_def py_slice_def slice_index_def)
  ultimately show ?thesis by simp
qed

section \<open>Intrachromosomal Detector\<close>

lemma ref_order_mset: "mset (ref_order ca) = mset [0..<length (rows ca)]"
  unfolding ref_order_def ref_headers_def
  using sorted_triples_mset[of "\<lambda>i. ref_starts ca ! i" "\<lambda>i. ref_ends ca ! i" "length (rows ca)"]
  by simp

lemma ref_order_set: "set (ref_order ca) = {0..<length (rows ca)}"
  using ref_order_mset[of ca] by (metis mset_eq_setD set_upt)

lemma ref_order_length: "length (ref_order ca) = length (rows ca)"
  using ref_order_mset[of ca] by (metis mset_eq_length length_upt diff_zero)

lemma in_ref_order_mset: "mset (in_ref_order ca) = mset (rows ca)"
proof -
  have "mset (in_ref_order ca) = image_mset (\<lambda>i. rows ca ! i) (mset (ref_order ca))"
    by (simp add: in_ref_order_def)
  also have "\<dots> = mset (map (\<lambda>i. rows ca ! i) [0..<length (rows ca)])"
    by (simp add: ref_order_mset)
  also have "\<dots> = mset (rows ca)"
    by (simp add: map_nth)
  finally show ?thesis .
qed

lemma in_ref_order_sorted: "sorted (map ref_start (in_ref_order ca))"
proof -
  let ?ts = "map (\<lambda>i. (ref_starts ca ! i, ref_ends ca ! i, i)) [0..<length (rows ca)]"
  have "map ref_start (in_ref_order ca) = map (\<lambda>i. ref_starts ca ! i) (ref_order ca)"
    using ref_order_set[of ca] by (simp add: in_ref_order_def ref_starts_def)
  also have "\<dots> = map fst (sort ?ts)"
    unfolding ref_order_def ref_headers_def
    using sorted_triples_fst[of "\<lambda>i. ref_starts ca ! i" "\<lambda>i. ref_ends ca ! i" "length (rows ca)"]
    by simp
  finally show ?thesis
    by (simp add: sorted_map_fst)
qed

lemma get_intra_contigs_result:
  "snd (get_intra_contigs uniq longest h r l d c)
     = (case uniq (h ! r) of
          Inl e \<Rightarrow> Inl e
        | Inr best \<Rightarrow>
            Inr (intra_breaks longest (filter_lengths l (filter_ref_chroms [best] (h ! r))) d c))"
  by (simp add: get_intra_contigs_def deepcopy_def filter_ref_chroms_inplace_def
      filter_lengths_inplace_def split: sum.splits)

lemma get_intra_contigs_store:
  "fst (get_intra_contigs uniq longest h r l d c)
     = (case uniq (h ! r) of
          Inl e \<Rightarrow> h
        | Inr best \<Rightarrow> h @ [filter_lengths l (filter_ref_chroms [best] (h ! r))])"
  by (simp add: get_intra_contigs_def deepcopy_def filter_ref_chroms_inplace_def
      filter_lengths_inplace_def split: sum.splits)

lemma intra_breaks_few:
  assumes "length (rows ctg) \<le> 1"
  shows "intra_breaks longest ctg d c = None"
  using assms ref_order_length[of ctg]
  by (simp add: intra_breaks_def Let_def ref_headers_def)

lemma first_index_less:
  assumes "x \<in> set xs"
  shows "first_index xs x < length xs \<and> xs ! first_index xs x = x"
  using assms by (induction xs) (auto simp: first_index_def)

lemma first_index_first:
  assumes "j < first_index xs x"
  shows "xs ! j \<noteq> x"
  using assms
  by (induction xs arbitrary: j) (auto simp: first_index_def nth_Cons split: nat.splits if_splits)

lemma ref_gaps_code:
  "map (\<lambda>i. ref_starts ctg ! (ref_order ctg ! (i + 1)) - ref_starts ctg ! (ref_order ctg ! i))
     [0..<length (ref_order ctg) - 1] = ref_gaps (in_ref_order ctg)"
proof (rule nth_equalityI)
  show "length (map (\<lambda>i. ref_starts ctg ! (ref_order ctg ! (i + 1)) - ref_starts ctg ! (ref_order ctg ! i))
     [0..<length (ref_order ctg) - 1]) = length (ref_gaps (in_ref_order ctg))"
    by (simp add: ref_gaps_def in_ref_order_def)
next
  fix i
  assume "i < length (map (\<lambda>i. ref_starts ctg ! (ref_order ctg ! (i + 1)) - ref_starts ctg ! (ref_order ctg ! i))
     [0..<length (ref_order ctg) - 1])"
  then have i: "i < length (ref_order ctg) - 1" by simp
  then have "ref_order ctg ! i \<in> set (ref_order ctg)" "ref_order ctg ! Suc i \<in> set (ref_order ctg)"
    by simp_all
  then have v: "ref_order ctg ! i < length (rows ctg)" "ref_order ctg ! Suc i < length (rows ctg)"
    by (simp_all add: ref_order_set)
  show "map (\<lambda>i. ref_starts ctg ! (ref_order ctg ! (i + 1)) - ref_starts ctg ! (ref_order ctg ! i))
     [0..<length (ref_order ctg) - 1] ! i = ref_gaps (in_ref_order ctg) ! i"
    using i v by (simp add: ref_gaps_def in_ref_order_def ref_starts_def nth_tl)
qed

lemma query_gaps_code:
  assumes "qs = (if is_rc then query_ends ctg else query_starts ctg)"
  shows "map (\<lambda>i. \<bar>qs ! (ref_order ctg ! (i + 1)) - qs ! (ref_order ctg ! i)\<bar>)
     [0..<length (ref_order ctg) - 1] = query_gaps is_rc (in_ref_order ctg)"
proof (rule nth_equalityI)
  show "length (map (\<lambda>i. \<bar>qs ! (ref_order ctg ! (i + 1)) - qs ! (ref_order ctg ! i)\<bar>)
     [0..<length (ref_order ctg) - 1]) = length (query_gaps is_rc (in_ref_order ctg))"
    by (simp add: query_gaps_def in_ref_order_def)
next
  fix i
  assume "i < length (map (\<lambda>i. \<bar>qs ! (ref_order ctg ! (i + 1)) - qs ! (ref_order ctg ! i)\<bar>)
     [0..<length (ref_order ctg) - 1])"
  then have i: "i < length (ref_order ctg) - 1" by simp
  then have "ref_order ctg ! i \<in> set (ref_order ctg)" "ref_order ctg ! Suc i \<in> set (ref_order ctg)"
    by simp_all
  then have v: "ref_order ctg ! i < length (rows ctg)" "ref_order ctg ! Suc i < length (rows ctg)"
    by (simp_all add: ref_order_set)
  show "map (\<lambda>i. \<bar>qs ! (ref_order ctg ! (i + 1)) - qs ! (ref_order ctg ! i)\<bar>)
     [0..<length (ref_order ctg) - 1] ! i = query_gaps is_rc (in_ref_order ctg) ! i"
    using i v assms
    by (simp add: query_gaps_def in_ref_order_def query_starts_def query_ends_def role_start_def nth_tl)
qed

lemma ordered_roles_code:
  assumes "k < length (ref_order ctg)"
  shows "map (\<lambda>i. (if is_rc then query_ends ctg else query_starts ctg) ! i) (ref_order ctg) ! k
           = role_start is_rc (in_ref_order ctg ! k)"
    and "map (\<lambda>i. (if is_rc then query_starts ctg else query_ends ctg) ! i) (ref_order ctg) ! k
           = role_end is_rc (in_ref_order ctg ! k)"
proof -
  have "ref_order ctg ! k \<in> set (ref_order ctg)" using assms by simp
  then have v: "ref_order ctg ! k < length (rows ctg)" by (simp add: ref_order_set)
  show "map (\<lambda>i. (if is_rc then query_ends ctg else query_starts ctg) ! i) (ref_order ctg) ! k
           = role_start is_rc (in_ref_order ctg ! k)"
    using assms v by (simp add: in_ref_order_def query_starts_def query_ends_def role_start_def)
  show "map (\<lambda>i. (if is_rc then query_starts ctg else query_ends ctg) ! i) (ref_order ctg) ! k
           = role_end is_rc (in_ref_order ctg ! k)"
    using assms v by (simp add: in_ref_order_def query_starts_def query_ends_def role_end_def)
qed

lemma intra_breaks_rule:
  fixes longest :: "contig_alignment \<Rightarrow> char"
  assumes ne: "rows ctg \<noteq> []"
  defines "is_rc \<equiv> longest ctg = CHR ''-''"
  defines "srt \<equiv> in_ref_order ctg"
  defines "rg \<equiv> ref_gaps srt"
  defines "qg \<equiv> query_gaps is_rc srt"
  defines "ql \<equiv> query_len (hd (rows ctg))"
  defines "k \<equiv> first_index rg (Max (set rg))"
  shows "intra_breaks longest ctg d c =
     (if rg \<noteq> [] \<and> Max (set rg) > d then
        Some (contig ctg,
          two_pieces (if role_start is_rc (srt ! k) < role_end is_rc (srt ! k)
                      then role_start is_rc (srt ! k) else role_end is_rc (srt ! k)) ql)
      else if qg \<noteq> [] \<and> Max (set qg) > c then
        Some (contig ctg, two_pieces (role_start is_rc (hd srt)) ql)
      else None)"
proof -
  let ?fo = "ref_order ctg"
  have e1: "map (\<lambda>i. ref_starts ctg ! (?fo ! (i + 1)) - ref_starts ctg ! (?fo ! i)) [0..<length ?fo - 1] = rg"
    unfolding rg_def srt_def by (rule ref_gaps_code)
  have e2: "map (\<lambda>i. \<bar>(if is_rc then query_ends ctg else query_starts ctg) ! (?fo ! (i + 1))
                     - (if is_rc then query_ends ctg else query_starts ctg) ! (?fo ! i)\<bar>)
              [0..<length ?fo - 1] = qg"
    unfolding qg_def srt_def by (rule query_gaps_code) simp
  have len: "length rg = length ?fo - 1" "length qg = length ?fo - 1"
    by (simp_all add: rg_def qg_def srt_def ref_gaps_def query_gaps_def in_ref_order_def)
  have fo_pos: "0 < length ?fo" using ne by (simp add: ref_order_length)
  have srt_ne: "srt \<noteq> []" using fo_pos by (auto simp: srt_def in_ref_order_def)
  have hdr: "length (ref_headers ctg) \<noteq> 0" using ne by (simp add: ref_headers_def)
  have q0: "query_lens ctg ! 0 = ql"
    using ne by (simp add: query_lens_def ql_def hd_map hd_conv_nth[symmetric])
  have s0: "map (\<lambda>i. (if is_rc then query_ends ctg else query_starts ctg) ! i) ?fo ! 0
              = role_start is_rc (hd srt)"
    using ordered_roles_code(1)[OF fo_pos, of is_rc] srt_ne by (simp add: srt_def hd_conv_nth)
  have qg_rg: "qg \<noteq> [] \<longleftrightarrow> rg \<noteq> []"
    using len by (metis length_0_conv)
  show ?thesis
  proof (cases "rg \<noteq> [] \<and> Max (set rg) > d")
    case True
    then have "Max (set rg) \<in> set rg" by (intro Max_in) simp_all
    then have "k < length rg" unfolding k_def by (simp add: first_index_less)
    then have kfo: "k < length ?fo" using len by simp
    have sk: "map (\<lambda>i. (if is_rc then query_ends ctg else query_starts ctg) ! i) ?fo ! k
                = role_start is_rc (srt ! k)"
      "map (\<lambda>i. (if is_rc then query_starts ctg else query_ends ctg) ! i) ?fo ! k
                = role_end is_rc (srt ! k)"
      using ordered_roles_code[OF kfo, of is_rc] by (simp_all add: srt_def)
    show ?thesis
      unfolding intra_breaks_def Let_def is_rc_def[symmetric] e1 e2 k_def[symmetric] sk q0
      using True hdr by (simp add: two_pieces_def)
  next
    case False
    show ?thesis
      unfolding intra_breaks_def Let_def is_rc_def[symmetric] e1 e2 k_def[symmetric] s0 q0
      using False hdr qg_rg by (auto simp: two_pieces_def)
  qed
qed

lemma intra_breaks_detector_spec:
  assumes "rows ctg \<noteq> []"
  shows "intra_breaks longest ctg d c
       = map_option (\<lambda>p. (contig ctg, p))
           (detector_spec (longest ctg = CHR ''-'') (in_ref_order ctg) (query_len (hd (rows ctg))) d c)"
  using intra_breaks_rule[OF assms, of longest d c]
  by (simp add: detector_spec_def Let_def)

text \<open>
  Claim C6. When at least one alignment remains after the restriction to the best
  chromosome and to length \<open>\<ge> l\<close>, \<^verbatim>\<open>get_intra_contigs\<close> returns what the rule gives on the
  remaining alignments in reference-start order, with the roles of query start and query end
  swapped when the longest alignment is on the reverse strand: if the largest gap between
  consecutive reference starts exceeds \<open>d\<close>, the two pieces \<open>(0, b)\<close> and
  \<open>(b, query_length)\<close>, where \<open>b\<close> is the query start at the index of that gap if it is below
  the query end there and the query end otherwise; else, if the largest gap between
  consecutive query starts exceeds \<open>c\<close>, the two pieces split at the query start of the first
  alignment in reference order; else no breakpoint.
\<close>

theorem intra_detector_rule:
  fixes longest :: "contig_alignment \<Rightarrow> char" and h :: store
  assumes "uniq (h ! r) = Inr best"
    and "rows (filter_lengths l (filter_ref_chroms [best] (h ! r))) \<noteq> []"
  defines "ctg \<equiv> filter_lengths l (filter_ref_chroms [best] (h ! r))"
  shows "snd (get_intra_contigs uniq longest h r l d c)
       = Inr (map_option (\<lambda>p. (contig ctg, p))
           (detector_spec (longest ctg = CHR ''-'') (in_ref_order ctg) (query_len (hd (rows ctg))) d c))
     \<and> rows ctg = filter (\<lambda>a. ref_header a = best \<and> l \<le> aln_len a) (rows (h ! r))
     \<and> sorted (map ref_start (in_ref_order ctg))
     \<and> mset (in_ref_order ctg) = mset (rows ctg)"
proof -
  have "snd (get_intra_contigs uniq longest h r l d c) = Inr (intra_breaks longest ctg d c)"
    using assms(1) by (simp add: get_intra_contigs_result ctg_def)
  moreover have "rows ctg = filter (\<lambda>a. ref_header a = best \<and> l \<le> aln_len a) (rows (h ! r))"
    by (simp add: ctg_def filter_lengths_def filter_ref_chroms_def conj_commute)
  ultimately show ?thesis
    using intra_breaks_detector_spec[of ctg longest d c] assms(2)
      in_ref_order_sorted[of ctg] in_ref_order_mset[of ctg]
    by (simp add: ctg_def)
qed

theorem intra_detector_rule_witness:
  "snd (get_intra_contigs (\<lambda>_. Inr ''chr1'') (\<lambda>_. CHR ''+'')
         [\<lparr>contig = ''ctg'', rows =
            [aln ''chr1'' (6000, 6100) (510, 610) 2000 CHR ''+'',
             aln ''chr2'' (0, 100) (700, 800) 2000 CHR ''+'',
             aln ''chr1'' (1000, 1100) (500, 600) 2000 CHR ''+'']\<rparr>] 0 50 1000 100)
     = Inr (Some (''ctg'', [(0, 500), (500, 2000)]))"
proof -
  let ?ca = "\<lparr>contig = ''ctg'', rows =
            [aln ''chr1'' (6000, 6100) (510, 610) 2000 CHR ''+'',
             aln ''chr2'' (0, 100) (700, 800) 2000 CHR ''+'',
             aln ''chr1'' (1000, 1100) (500, 600) 2000 CHR ''+'']\<rparr>"
  let ?ctg = "filter_lengths 50 (filter_ref_chroms [''chr1''] ([?ca] ! 0))"
  have h1: "(\<lambda>_::contig_alignment. Inr ''chr1'' :: py_error + string) ([?ca] ! 0) = Inr ''chr1''"
    by simp
  have h2: "rows ?ctg \<noteq> []"
    by code_simp
  have ev: "map_option (\<lambda>p. (contig ?ctg, p))
           (detector_spec ((\<lambda>_. CHR ''+'') ?ctg = CHR ''-'') (in_ref_order ?ctg)
              (query_len (hd (rows ?ctg))) 1000 100)
         = Some (''ctg'', [(0, 500), (500, 2000)])"
    by code_simp
  show ?thesis
    using intra_detector_rule[of "\<lambda>_. Inr ''chr1''" "[?ca]" 0 "''chr1''" 50 "\<lambda>_. CHR ''+''" 1000 100]
      h1 h2 ev
    by simp
qed

text \<open>
  Claim C10. \<^verbatim>\<open>get_intra_contigs\<close> leaves every object that existed before the call as it was,
  the caller's alignment collection among them: the chromosome filter and the length filter
  overwrite only the deep copy, which is the one object the call adds to the store.
\<close>

theorem get_intra_contigs_frame:
  assumes "alns < length h"
  shows "take (length h) (fst (get_intra_contigs uniq longest h alns l d c)) = h
       \<and> fst (get_intra_contigs uniq longest h alns l d c) ! alns = h ! alns
       \<and> (\<forall>best. uniq (h ! alns) = Inr best \<longrightarrow>
            fst (get_intra_contigs uniq longest h alns l d c)
              = h @ [filter_lengths l (filter_ref_chroms [best] (h ! alns))])"
  using assms
  by (simp add: get_intra_contigs_store nth_append split: sum.splits)

theorem get_intra_contigs_frame_witness:
  "fst (get_intra_contigs (\<lambda>_. Inr ''chr1'') (\<lambda>_. CHR ''+'')
         [\<lparr>contig = ''ctg'', rows =
            [aln ''chr1'' (6000, 6100) (510, 610) 2000 CHR ''+'',
             aln ''chr2'' (0, 100) (700, 800) 2000 CHR ''+'',
             aln ''chr1'' (1000, 1040) (500, 540) 2000 CHR ''+'']\<rparr>] 0 50 1000 100)
     = [\<lparr>contig = ''ctg'', rows =
            [aln ''chr1'' (6000, 6100) (510, 610) 2000 CHR ''+'',
             aln ''chr2'' (0, 100) (700, 800) 2000 CHR ''+'',
             aln ''chr1'' (1000, 1040) (500, 540) 2000 CHR ''+'']\<rparr>,
        \<lparr>contig = ''ctg'', rows = [aln ''chr1'' (6000, 6100) (510, 610) 2000 CHR ''+'']\<rparr>]"
proof -
  let ?ca = "\<lparr>contig = ''ctg'', rows =
            [aln ''chr1'' (6000, 6100) (510, 610) 2000 CHR ''+'',
             aln ''chr2'' (0, 100) (700, 800) 2000 CHR ''+'',
             aln ''chr1'' (1000, 1040) (500, 540) 2000 CHR ''+'']\<rparr>"
  have h: "(0::nat) < length [?ca]" by simp
  have ev: "filter_lengths 50 (filter_ref_chroms [''chr1''] ([?ca] ! 0))
      = \<lparr>contig = ''ctg'', rows = [aln ''chr1'' (6000, 6100) (510, 610) 2000 CHR ''+'']\<rparr>"
    by (simp add: filter_lengths_def filter_ref_chroms_def aln_def)
  show ?thesis
    using get_intra_contigs_frame[OF h, of "\<lambda>_. Inr ''chr1''" "\<lambda>_. CHR ''+''" 50 1000 100] ev
    by simp
qed

section \<open>Degenerate inputs\<close>

text \<open>
  Claim C9, as amended. A contig with a single alignment left is not split: the Clusterer
  returns the single interval over the whole contig and the Detector returns no breakpoint;
  the Detector also returns no breakpoint when no alignment remains after its filters. The
  Clusterer on an alignment set that is empty after the chromosome filter raises
  \<^verbatim>\<open>IndexError\<close> (line 73 reads \<^verbatim>\<open>ordered_refs[0]\<close>).
\<close>

theorem degenerate_inputs:
  fixes alns :: "string \<rightharpoonup> contig_alignment" and h :: store
  shows "(alns contig_name = Some ctg0 \<and> rows (filter_ref_chroms chroms ctg0) = [a] \<longrightarrow>
            cluster_contig_alns contig_name alns chroms l
              = Inr (alns(contig_name \<mapsto> filter_ref_chroms chroms ctg0), [(0, query_len a)]))
       \<and> (alns contig_name = Some ctg0 \<and> rows (filter_ref_chroms chroms ctg0) = [] \<longrightarrow>
            cluster_contig_alns contig_name alns chroms l = Inl IndexError)
       \<and> (uniq (h ! r) = Inr best
            \<and> length (rows (filter_lengths lmin (filter_ref_chroms [best] (h ! r)))) \<le> 1 \<longrightarrow>
            snd (get_intra_contigs uniq longest h r lmin d c) = Inr None)"
proof (intro conjI impI)
  assume a: "alns contig_name = Some ctg0 \<and> rows (filter_ref_chroms chroms ctg0) = [a]"
  let ?ctg = "filter_ref_chroms chroms ctg0"
  have "length (in_query_order ?ctg) < 3"
    using a query_order_length[of ?ctg] by (simp add: in_query_order_def)
  then have "switch_points (ref_header (hd (in_query_order ?ctg))) (in_query_order ?ctg) = []"
    by (rule switch_points_short)
  then show "cluster_contig_alns contig_name alns chroms l
              = Inr (alns(contig_name \<mapsto> ?ctg), [(0, query_len a)])"
    using cluster_contig_alns_result[of alns contig_name ctg0 chroms l] a
    by (simp add: consecutive_pairs_single)
next
  assume "alns contig_name = Some ctg0 \<and> rows (filter_ref_chroms chroms ctg0) = []"
  then show "cluster_contig_alns contig_name alns chroms l = Inl IndexError"
    using cluster_contig_alns_empty[of alns contig_name ctg0 chroms l] by simp
next
  assume "uniq (h ! r) = Inr best
            \<and> length (rows (filter_lengths lmin (filter_ref_chroms [best] (h ! r)))) \<le> 1"
  then show "snd (get_intra_contigs uniq longest h r lmin d c) = Inr None"
    by (simp add: get_intra_contigs_result intra_breaks_few)
qed

theorem degenerate_inputs_witness:
  "cluster_contig_alns ''ctg''
      [''ctg'' \<mapsto> \<lparr>contig = ''ctg'', rows = [aln ''chr1'' (0, 100) (0, 100) 200 CHR ''+'']\<rparr>]
      [''chr1''] 0
     = Inr ([''ctg'' \<mapsto> \<lparr>contig = ''ctg'', rows = [aln ''chr1'' (0, 100) (0, 100) 200 CHR ''+'']\<rparr>],
            [(0, 200)])
   \<and> cluster_contig_alns ''ctg''
      [''ctg'' \<mapsto> \<lparr>contig = ''ctg'', rows = [aln ''chr1'' (0, 100) (0, 100) 200 CHR ''+'']\<rparr>]
      [''chr2''] 0 = Inl IndexError
   \<and> snd (get_intra_contigs (\<lambda>_. Inr ''chr1'') (\<lambda>_. CHR ''+'')
        [\<lparr>contig = ''ctg'', rows = [aln ''chr1'' (0, 100) (0, 100) 200 CHR ''+'']\<rparr>] 0 500 10 10)
       = Inr None"
proof -
  let ?ca = "\<lparr>contig = ''ctg'', rows = [aln ''chr1'' (0, 100) (0, 100) 200 CHR ''+'']\<rparr>"
  have f1: "filter_ref_chroms [''chr1''] ?ca = ?ca"
    by (simp add: filter_ref_chroms_def aln_def)
  have f2: "rows (filter_ref_chroms [''chr2''] ?ca) = []"
    by (simp add: filter_ref_chroms_def aln_def)
  have f3: "length (rows (filter_lengths 500 (filter_ref_chroms [''chr1''] ([?ca] ! 0)))) \<le> 1"
    by (simp add: filter_lengths_def filter_ref_chroms_def aln_def)
  have q: "query_len (aln ''chr1'' (0, 100) (0, 100) 200 CHR ''+'') = 200"
    by (simp add: aln_def)
  show ?thesis
    using degenerate_inputs[of "[''ctg'' \<mapsto> ?ca]" "''ctg''" ?ca "[''chr1'']"
        "aln ''chr1'' (0, 100) (0, 100) 200 CHR ''+''" 0 "\<lambda>_. Inr ''chr1''" "[?ca]" 0 "''chr1''" 500
        "\<lambda>_. CHR ''+''" 10 10]
      degenerate_inputs[of "[''ctg'' \<mapsto> ?ca]" "''ctg''" ?ca "[''chr2'']"
        "aln ''chr1'' (0, 100) (0, 100) 200 CHR ''+''" 0 "\<lambda>_. Inr ''chr1''" "[?ca]" 0 "''chr1''" 500
        "\<lambda>_. CHR ''+''" 10 10]
      f1 f2 f3 q
    by simp
qed

text \<open>
  Claim C9 as stated fails: on an empty alignment list the Clusterer does not yield the
  whole-contig interval, it raises.
\<close>

theorem clusterer_empty_raises:
  "cluster_contig_alns ''ctg'' [''ctg'' \<mapsto> \<lparr>contig = ''ctg'', rows = []\<rparr>] [''chr1''] 0
     = Inl IndexError"
  by (simp add: cluster_contig_alns_def get_borders_def filter_ref_chroms_def query_order_def
      ref_headers_def)

section \<open>Coverage Scorer: a total of zero\<close>

lemma dd_append_not_Nil: "dd_append k v acc \<noteq> []"
  by (cases "(k, v, acc)" rule: dd_append.cases) simp_all

lemma collect_intervals_Nil:
  "collect_intervals as l acc = [] \<longleftrightarrow> acc = [] \<and> (\<forall>a\<in>set as. aln_len a < l)"
  by (induction as arbitrary: acc) (auto simp: dd_append_not_Nil)

lemma ranges_Nil: "ranges alns l = [] \<longleftrightarrow> (\<forall>a\<in>set (rows alns). aln_len a < l)"
  by (simp add: ranges_def all_intervals_def collect_intervals_Nil)

lemma chimeric_loop_zero:
  "chimeric_loop pct 0 r rs acc = (if rs = [] then Inr acc else Inl ZeroDivisionError)"
  by (cases rs) auto

text \<open>
  Claim C8, as amended. When the total covered length is zero, \<^verbatim>\<open>get_ref_parts\<close> has no guard:
  if some alignment passes the length filter, the percentage division raises
  \<^verbatim>\<open>ZeroDivisionError\<close>; if none does, the loop over the chromosomes has nothing to do and
  the result is the empty list.
\<close>

theorem zero_coverage_unguarded:
  assumes "sum_list (map snd (ranges alns l)) = 0"
  shows "get_ref_parts pct_exceeds alns l r
       = (if \<forall>a\<in>set (rows alns). aln_len a < l then Inr [] else Inl ZeroDivisionError)"
  using assms by (simp add: get_ref_parts_def Let_def chimeric_loop_zero ranges_Nil)

theorem zero_coverage_unguarded_witness:
  "get_ref_parts (\<lambda>v t. 10 * t < 100 * v)
      \<lparr>contig = ''ctg'', rows = [aln ''chr1'' (7, 7) (0, 100) 200 CHR ''+'',
                                aln ''chr2'' (9, 9) (100, 200) 200 CHR ''+'']\<rparr> 1 10 = Inr []
   \<and> get_ref_parts (\<lambda>v t. 10 * t < 100 * v)
      \<lparr>contig = ''ctg'', rows = [aln ''chr1'' (7, 7) (0, 100) 200 CHR ''+'',
                                aln ''chr2'' (9, 9) (100, 200) 200 CHR ''+'']\<rparr> 0 10
       = Inl ZeroDivisionError"
proof -
  let ?ca = "\<lparr>contig = ''ctg'', rows = [aln ''chr1'' (7, 7) (0, 100) 200 CHR ''+'',
                                aln ''chr2'' (9, 9) (100, 200) 200 CHR ''+'']\<rparr>"
  have z1: "sum_list (map snd (ranges ?ca 1)) = 0" by code_simp
  have z0: "sum_list (map snd (ranges ?ca 0)) = 0" by code_simp
  show ?thesis
    using zero_coverage_unguarded[OF z1, of "\<lambda>v t. 10 * t < 100 * v" 10]
      zero_coverage_unguarded[OF z0, of "\<lambda>v t. 10 * t < 100 * v" 10]
    by (simp add: aln_def)
qed

text \<open>
  Claim C8 as stated fails: a single alignment with an empty reference interval gives a
  total covered length of zero, and the scorer raises \<^verbatim>\<open>ZeroDivisionError\<close>.
\<close>

theorem zero_coverage_division_fault:
  "sum_list (map snd (ranges \<lparr>contig = ''ctg'', rows = [aln ''chr1'' (5, 5) (0, 100) 200 CHR ''+'']\<rparr> 0)) = 0
   \<and> get_ref_parts (\<lambda>v t. True)
        \<lparr>contig = ''ctg'', rows = [aln ''chr1'' (5, 5) (0, 100) 200 CHR ''+'']\<rparr> 0 0
       = Inl ZeroDivisionError"
  by code_simp

section \<open>Breakpoint Adjuster\<close>

lemma tree_at_Nil: "tree_at t p = [] \<longleftrightarrow> (\<forall>iv\<in>set t. \<not> (fst iv \<le> p \<and> p < fst (snd iv)))"
  by (auto simp: tree_at_def filter_empty_conv)

lemma probe_free: "tree_at t (probe t p) = []"
proof (induction t p rule: probe.induct)
  case (1 t p)
  show ?case
  proof (cases "tree_at t p \<noteq> []")
    case True
    then show ?thesis using "1.IH" by (subst probe.simps) simp
  next
    case False
    then show ?thesis by (subst probe.simps) simp
  qed
qed

lemma probe_ge: "p \<le> probe t p"
proof (induction t p rule: probe.induct)
  case (1 t p)
  show ?case
  proof (cases "tree_at t p \<noteq> []")
    case True
    then have "p + 1 \<le> probe t (p + 1)" using "1.IH" by simp
    then show ?thesis using True by (subst probe.simps) simp
  next
    case False
    then show ?thesis by (subst probe.simps) simp
  qed
qed

lemma probe_id: "tree_at t p = [] \<Longrightarrow> probe t p = p"
  by (subst probe.simps) simp

lemma tree_add_ok:
  assumes "b < e"
  shows "\<exists>t'. tree_add b e d t = Inr t' \<and> set t' = insert (b, e, d) (set t)
           \<and> (distinct t \<longrightarrow> distinct t')"
  using assms by (auto simp: tree_add_def)

lemma gff_tree_ok:
  assumes "\<forall>f\<in>set gff_ins. start f \<le> end' f"
  shows "\<exists>t. gff_tree gff_ins t0 = Inr t
           \<and> set t = set t0 \<union> {(start f, end' f, (start f, end' f)) |f. f \<in> set gff_ins \<and> start f \<noteq> end' f}"
  using assms
proof (induction gff_ins arbitrary: t0)
  case Nil
  then show ?case by simp
next
  case (Cons line rest)
  show ?case
  proof (cases "start line = end' line")
    case True
    then show ?thesis using Cons.IH[of t0] Cons.prems by auto
  next
    case False
    then have lt: "start line < end' line" using Cons.prems by auto
    obtain t' where t': "tree_add (start line) (end' line) (start line, end' line) t0 = Inr t'"
      "set t' = insert (start line, end' line, (start line, end' line)) (set t0)"
      using tree_add_ok[OF lt, of "(start line, end' line)" t0] by blast
    obtain t where t: "gff_tree rest t' = Inr t"
      "set t = set t' \<union> {(start f, end' f, (start f, end' f)) |f. f \<in> set rest \<and> start f \<noteq> end' f}"
      using Cons.IH[of t'] Cons.prems by auto
    have "gff_tree (line # rest) t0 = Inr t"
      using False t' t by simp
    moreover have "set t = set t0 \<union> {(start f, end' f, (start f, end' f)) |f. f \<in> set (line # rest) \<and> start f \<noteq> end' f}"
      using t(2) t'(2) False by auto
    ultimately show ?thesis by blast
  qed
qed

lemma gff_tree_free:
  assumes "gff_tree gff_ins [] = Inr t" and "\<forall>f\<in>set gff_ins. start f \<le> end' f"
  shows "tree_at t p = [] \<longleftrightarrow> (\<forall>f\<in>set gff_ins. \<not> (start f \<le> p \<and> p < end' f))"
proof -
  obtain t' where "gff_tree gff_ins [] = Inr t'"
    "set t' = set [] \<union> {(start f, end' f, (start f, end' f)) |f. f \<in> set gff_ins \<and> start f \<noteq> end' f}"
    using gff_tree_ok[OF assms(2), of "[]"] by blast
  then have st: "set t = {(start f, end' f, (start f, end' f)) |f. f \<in> set gff_ins \<and> start f \<noteq> end' f}"
    using assms(1) by simp
  show ?thesis
    unfolding tree_at_Nil st by fastforce
qed

lemma adjust_border_free:
  assumes "gff_tree gff_ins [] = Inr t" and "\<forall>f\<in>set gff_ins. start f \<le> end' f"
  shows "\<forall>f\<in>set gff_ins. \<not> (start f \<le> fst (adjust_border t b) \<and> fst (adjust_border t b) < end' f)"
    and "\<forall>f\<in>set gff_ins. \<not> (start f \<le> snd (adjust_border t b) \<and> snd (adjust_border t b) < end' f)"
  using gff_tree_free[OF assms, of "probe t (fst b)"] gff_tree_free[OF assms, of "probe t (snd b)"]
  by (simp_all add: adjust_border_def probe_free)

text \<open>
  Claim C5, as amended. For a non-empty border list and features with start \<open>\<le>\<close> end, the
  Breakpoint Adjuster returns as many borders as it was given; no start coordinate of an
  adjusted border, and no end coordinate of an adjusted border other than the last, lies in
  a feature interval \<open>[start, end)\<close>; the last adjusted border's end is the original final
  border's end, so the ends are all outside the features when that original end is.
\<close>

theorem adjusted_borders_avoid_features:
  assumes "borders \<noteq> []" and "\<forall>f\<in>set gff_ins. start f \<le> end' f"
  shows "\<exists>nb. avoid_gff_intervals borders gff_ins = Inr nb
     \<and> length nb = length borders
     \<and> (\<forall>b\<in>set nb. \<forall>f\<in>set gff_ins. \<not> (start f \<le> fst b \<and> fst b < end' f))
     \<and> (\<forall>b\<in>set (butlast nb). \<forall>f\<in>set gff_ins. \<not> (start f \<le> snd b \<and> snd b < end' f))
     \<and> snd (last nb) = snd (last borders)
     \<and> ((\<forall>f\<in>set gff_ins. \<not> (start f \<le> snd (last borders) \<and> snd (last borders) < end' f)) \<longrightarrow>
          (\<forall>b\<in>set nb. \<forall>f\<in>set gff_ins. \<not> (start f \<le> snd b \<and> snd b < end' f)))"
proof -
  obtain t where t: "gff_tree gff_ins [] = Inr t"
    using gff_tree_ok[OF assms(2), of "[]"] by blast
  let ?raw = "map (adjust_border t) borders"
  let ?out = "butlast ?raw @ [(fst (last ?raw), snd (last borders))]"
  have ne: "?raw \<noteq> []" using assms(1) by simp
  have res: "avoid_gff_intervals borders gff_ins = Inr ?out"
    using t assms(1) by (simp add: avoid_gff_intervals_def Let_def)
  have len: "length ?out = length borders" using assms(1) by simp
  have free0: "(\<forall>f\<in>set gff_ins. \<not> (start f \<le> fst b \<and> fst b < end' f))
                 \<and> (\<forall>f\<in>set gff_ins. \<not> (start f \<le> snd b \<and> snd b < end' f))"
    if "b \<in> set ?raw" for b
  proof -
    from that obtain b0 where "b = adjust_border t b0" by auto
    then show ?thesis
      using adjust_border_free[OF t assms(2), of b0] by simp
  qed
  have last0: "last ?raw \<in> set ?raw" using ne by (rule last_in_set)
  have but0: "b \<in> set ?raw" if "b \<in> set (butlast ?raw)" for b
    using that by (rule in_set_butlastD)
  have set_nb: "set ?out = insert (fst (last ?raw), snd (last borders)) (set (butlast ?raw))"
    by simp
  have starts: "\<forall>b\<in>set ?out. \<forall>f\<in>set gff_ins. \<not> (start f \<le> fst b \<and> fst b < end' f)"
    unfolding set_nb using free0[OF last0] free0[OF but0] by auto
  have ends: "\<forall>b\<in>set (butlast ?out). \<forall>f\<in>set gff_ins. \<not> (start f \<le> snd b \<and> snd b < end' f)"
    unfolding butlast_snoc using free0[OF but0] by blast
  have lastend: "snd (last ?out) = snd (last borders)" by simp
  have all_ends: "(\<forall>f\<in>set gff_ins. \<not> (start f \<le> snd (last borders) \<and> snd (last borders) < end' f)) \<longrightarrow>
          (\<forall>b\<in>set ?out. \<forall>f\<in>set gff_ins. \<not> (start f \<le> snd b \<and> snd b < end' f))"
    unfolding set_nb using free0[OF but0] by auto
  show ?thesis
    using res len starts ends lastend all_ends by blast
qed

theorem adjusted_borders_avoid_features_witness:
  "avoid_gff_intervals [(0, 100), (100, 200)]
     [\<lparr>seqname = ''ctg'', start = 95, end' = 105, attributes = ''gene''\<rparr>,
      \<lparr>seqname = ''ctg'', start = 105, end' = 110, attributes = ''gene''\<rparr>,
      \<lparr>seqname = ''ctg'', start = 150, end' = 150, attributes = ''site''\<rparr>]
     = Inr [(0, 110), (110, 200)]"
proof -
  let ?fs = "[\<lparr>seqname = ''ctg'', start = 95, end' = 105, attributes = ''gene''\<rparr>,
      \<lparr>seqname = ''ctg'', start = 105, end' = 110, attributes = ''gene''\<rparr>,
      \<lparr>seqname = ''ctg'', start = 150, end' = 150, attributes = ''site''\<rparr>]"
  have h1: "[(0, 100), (100, 200)] \<noteq> ([]::(int \<times> int) list)" by simp
  have h2: "\<forall>f\<in>set ?fs. start f \<le> end' f" by simp
  obtain nb where nb: "avoid_gff_intervals [(0, 100), (100, 200)] ?fs = Inr nb"
    using adjusted_borders_avoid_features[OF h1 h2] by blast
  have "avoid_gff_intervals [(0, 100), (100, 200)] ?fs = Inr [(0, 110), (110, 200)]"
    by code_simp
  then show ?thesis using nb by simp
qed

text \<open>
  Claim C5 as stated fails: the end of the last border is put back to its original value,
  here 100, strictly inside the feature from 50 to 150.
\<close>

theorem last_border_end_inside_feature:
  "avoid_gff_intervals [(0, 100)] [\<lparr>seqname = ''ctg'', start = 50, end' = 150, attributes = ''gene''\<rparr>]
     = Inr [(0, 100)]
   \<and> start \<lparr>seqname = ''ctg'', start = 50, end' = 150, attributes = ''gene''\<rparr> < snd (0::int, 100::int)
   \<and> snd (0::int, 100::int) < end' \<lparr>seqname = ''ctg'', start = 50, end' = 150, attributes = ''gene''\<rparr>"
proof -
  have "avoid_gff_intervals [(0, 100)] [\<lparr>seqname = ''ctg'', start = 50, end' = 150, attributes = ''gene''\<rparr>]
     = Inr [(0, 100)]"
    by code_simp
  then show ?thesis by simp
qed

section \<open>Feature Remapper\<close>











lemma update_gff_Inr:
  assumes "update_gff features borders c = Inr features'"
  shows "\<exists>feats t. features c = Some feats \<and> border_tree borders [] = Inr t"
  using assms by (auto simp: update_gff_def Let_def split: option.splits sum.splits)














section \<open>Further properties of the Clusterer\<close>

lemma contiguous_zip: "contiguous (zip xs (tl xs))"
proof (induction xs)
  case Nil
  then show ?case by simp
next
  case (Cons a xs)
  show ?case
  proof (cases xs)
    case Nil
    then show ?thesis by simp
  next
    case c1: (Cons b ys)
    then show ?thesis using Cons.IH by (cases ys) simp_all
  qed
qed

lemma contiguous_consecutive_pairs: "contiguous (consecutive_pairs xs)"
  by (simp add: consecutive_pairs_zip contiguous_zip)

text \<open>
  What does hold of the Clusterer's borders on a non-empty alignment set: they are
  contiguous, begin at 0 and end at the query length.
\<close>

theorem clusterer_borders_contiguous:
  fixes alns :: "string \<rightharpoonup> contig_alignment"
  assumes "alns contig_name = Some ctg_alns0"
    and "rows (filter_ref_chroms chroms ctg_alns0) \<noteq> []"
  shows "\<exists>m ivs. cluster_contig_alns contig_name alns chroms l = Inr (m, ivs)
       \<and> ivs \<noteq> [] \<and> contiguous ivs \<and> fst (hd ivs) = 0
       \<and> snd (last ivs) = query_len (hd (rows (filter_ref_chroms chroms ctg_alns0)))"
  using cluster_contig_alns_result[of alns contig_name ctg_alns0 chroms l] assms
    consecutive_pairs_ends contiguous_consecutive_pairs
  by simp

theorem clusterer_borders_contiguous_witness:
  "\<exists>m ivs. cluster_contig_alns ''ctg''
      [''ctg'' \<mapsto> \<lparr>contig = ''ctg'', rows =
         [aln ''chr1'' (0, 10) (0, 10) 20 CHR ''+'',
          aln ''chr2'' (0, 1) (1, 2) 20 CHR ''+'',
          aln ''chr2'' (2, 3) (3, 4) 20 CHR ''+'']\<rparr>]
      [''chr1'', ''chr2''] 0 = Inr (m, ivs)
     \<and> ivs \<noteq> [] \<and> contiguous ivs \<and> fst (hd ivs) = 0 \<and> snd (last ivs) = 20"
proof -
  let ?ca = "\<lparr>contig = ''ctg'', rows =
         [aln ''chr1'' (0, 10) (0, 10) 20 CHR ''+'',
          aln ''chr2'' (0, 1) (1, 2) 20 CHR ''+'',
          aln ''chr2'' (2, 3) (3, 4) 20 CHR ''+'']\<rparr>"
  have h1: "[''ctg'' \<mapsto> ?ca] ''ctg'' = Some ?ca" by simp
  have h2: "rows (filter_ref_chroms [''chr1'', ''chr2''] ?ca) \<noteq> []" by code_simp
  have ql: "query_len (hd (rows (filter_ref_chroms [''chr1'', ''chr2''] ?ca))) = 20" by code_simp
  show ?thesis
    using clusterer_borders_contiguous[of "[''ctg'' \<mapsto> ?ca]" "''ctg''" ?ca "[''chr1'', ''chr2'']" 0]
      h1 h2 unfolding ql by blast
qed

text \<open>
  The walk only looks at positions that have a previous and a next alignment, so a contig
  with one or two alignments left is never split, whatever their chromosomes.
\<close>

theorem clusterer_needs_three:
  fixes alns :: "string \<rightharpoonup> contig_alignment"
  assumes "alns contig_name = Some ctg_alns0"
    and "rows (filter_ref_chroms chroms ctg_alns0) \<noteq> []"
    and "length (rows (filter_ref_chroms chroms ctg_alns0)) \<le> 2"
  shows "cluster_contig_alns contig_name alns chroms l
       = Inr (alns(contig_name \<mapsto> filter_ref_chroms chroms ctg_alns0),
              [(0, query_len (hd (rows (filter_ref_chroms chroms ctg_alns0))))])"
proof -
  let ?ctg = "filter_ref_chroms chroms ctg_alns0"
  have "length (in_query_order ?ctg) < 3"
    using assms(3) query_order_length[of ?ctg] by (simp add: in_query_order_def)
  then have "switch_points (ref_header (hd (in_query_order ?ctg))) (in_query_order ?ctg) = []"
    by (rule switch_points_short)
  then show ?thesis
    using cluster_contig_alns_result[of alns contig_name ctg_alns0 chroms l] assms(1,2)
    by (simp add: consecutive_pairs_single)
qed

theorem clusterer_needs_three_witness:
  "\<exists>m. cluster_contig_alns ''ctg''
      [''ctg'' \<mapsto> \<lparr>contig = ''ctg'', rows =
         [aln ''chr1'' (0, 100) (0, 100) 200 CHR ''+'',
          aln ''chr2'' (0, 100) (100, 200) 200 CHR ''+'']\<rparr>]
      [''chr1'', ''chr2''] 0 = Inr (m, [(0, 200)])"
proof -
  let ?ca = "\<lparr>contig = ''ctg'', rows =
         [aln ''chr1'' (0, 100) (0, 100) 200 CHR ''+'',
          aln ''chr2'' (0, 100) (100, 200) 200 CHR ''+'']\<rparr>"
  have h1: "[''ctg'' \<mapsto> ?ca] ''ctg'' = Some ?ca" by simp
  have h2: "rows (filter_ref_chroms [''chr1'', ''chr2''] ?ca) \<noteq> []" by code_simp
  have h3: "length (rows (filter_ref_chroms [''chr1'', ''chr2''] ?ca)) \<le> 2" by code_simp
  have ql: "query_len (hd (rows (filter_ref_chroms [''chr1'', ''chr2''] ?ca))) = 200" by code_simp
  show ?thesis
    using clusterer_needs_three[of "[''ctg'' \<mapsto> ?ca]" "''ctg''" ?ca "[''chr1'', ''chr2'']" 0]
      h1 h2 h3 unfolding ql by blast
qed

section \<open>Further properties of the Adjuster and the Scorer\<close>

lemma contiguous_map_adjust:
  assumes "contiguous borders"
  shows "contiguous (map (adjust_border t) borders)"
  using assms
  by (induction borders rule: contiguous.induct) (simp_all add: adjust_border_def)

lemma contiguous_reset_last:
  assumes "contiguous xs" and "xs \<noteq> []"
  shows "contiguous (butlast xs @ [(fst (last xs), e)])"
  using assms
proof (induction xs rule: contiguous.induct)
  case (1 b1 b2 rest)
  have IH: "contiguous (butlast (b2 # rest) @ [(fst (last (b2 # rest)), e)])"
    using "1.IH" "1.prems" by simp
  show ?case
  proof (cases rest)
    case Nil
    then show ?thesis using "1.prems" by simp
  next
    case (Cons b3 rest')
    then show ?thesis using IH "1.prems" by simp
  qed
qed simp_all

text \<open>
  The two sides of an internal boundary are probed from the same coordinate over the same
  features, so they move together: contiguous borders stay contiguous under the Adjuster.
\<close>

theorem adjuster_keeps_contiguity:
  assumes "borders \<noteq> []" and "\<forall>f\<in>set gff_ins. start f \<le> end' f" and "contiguous borders"
  shows "\<exists>nb. avoid_gff_intervals borders gff_ins = Inr nb \<and> contiguous nb"
proof -
  obtain t where t: "gff_tree gff_ins [] = Inr t"
    using gff_tree_ok[OF assms(2), of "[]"] by blast
  let ?raw = "map (adjust_border t) borders"
  have "avoid_gff_intervals borders gff_ins
      = Inr (butlast ?raw @ [(fst (last ?raw), snd (last borders))])"
    using t assms(1) by (simp add: avoid_gff_intervals_def Let_def)
  moreover have "contiguous (butlast ?raw @ [(fst (last ?raw), snd (last borders))])"
    using contiguous_map_adjust[OF assms(3), of t] assms(1)
    by (intro contiguous_reset_last) simp_all
  ultimately show ?thesis by simp
qed

theorem adjuster_keeps_contiguity_witness:
  "avoid_gff_intervals [(0, 100), (100, 200)]
     [\<lparr>seqname = ''ctg'', start = 95, end' = 105, attributes = ''gene''\<rparr>]
     = Inr [(0, 105), (105, 200)]
   \<and> contiguous [(0, 105), (105, 200)]"
proof -
  let ?fs = "[\<lparr>seqname = ''ctg'', start = 95, end' = 105, attributes = ''gene''\<rparr>]"
  have h1: "[(0, 100), (100, 200)] \<noteq> ([]::(int \<times> int) list)" by simp
  have h2: "\<forall>f\<in>set ?fs. start f \<le> end' f" by simp
  have h3: "contiguous [(0, 100), (100, 200)]" by simp
  have ev: "avoid_gff_intervals [(0, 100), (100, 200)] ?fs = Inr [(0, 105), (105, 200)]"
    by code_simp
  show ?thesis
    using adjuster_keeps_contiguity[OF h1 h2 h3] ev by auto
qed

lemma dd_append_map_of:
  "map_of (dd_append k v acc) h
     = (if h = k then Some ((case map_of acc k of None \<Rightarrow> [] | Some vs \<Rightarrow> vs) @ [v]) else map_of acc h)"
  by (induction k v acc rule: dd_append.induct) auto

lemma dd_append_keys:
  "set (map fst (dd_append k v acc)) = insert k (set (map fst acc))"
  "distinct (map fst acc) \<Longrightarrow> distinct (map fst (dd_append k v acc))"
  by (induction k v acc rule: dd_append.induct) auto

lemma collect_intervals_map_of:
  "map_of (collect_intervals as l acc) h
     = (let new = map (\<lambda>a. (ref_start a, ref_end a))
                    (filter (\<lambda>a. \<not> aln_len a < l \<and> ref_header a = h) as)
        in case map_of acc h of
             None \<Rightarrow> (if new = [] then None else Some new)
           | Some vs \<Rightarrow> Some (vs @ new))"
  by (induction as arbitrary: acc) (auto simp: dd_append_map_of Let_def split: option.splits)

lemma collect_intervals_distinct:
  "distinct (map fst acc) \<Longrightarrow> distinct (map fst (collect_intervals as l acc))"
  by (induction as arbitrary: acc) (auto simp: dd_append_keys)

text \<open>
  The covered length that \<^verbatim>\<open>get_ref_parts\<close> records for a chromosome is the size of the
  union of the reference intervals of this chromosome's alignments of length at least \<open>l\<close>.
\<close>

theorem ranges_covered_length:
  assumes "\<forall>a\<in>set (rows alns). 0 \<le> ref_start a" and "(h, v) \<in> set (ranges alns l)"
  shows "v = int (naive_union_length
                    (map (\<lambda>a. (ref_start a, ref_end a))
                       (filter (\<lambda>a. \<not> aln_len a < l \<and> ref_header a = h) (rows alns))))"
proof -
  let ?new = "map (\<lambda>a. (ref_start a, ref_end a))
                (filter (\<lambda>a. \<not> aln_len a < l \<and> ref_header a = h) (rows alns))"
  from assms(2) obtain ivs where ivs: "(h, ivs) \<in> set (all_intervals alns l)" "v = union_length ivs"
    by (auto simp: ranges_def)
  have "distinct (map fst (all_intervals alns l))"
    unfolding all_intervals_def by (rule collect_intervals_distinct) simp
  then have "map_of (all_intervals alns l) h = Some ivs"
    using ivs(1) by simp
  then have "ivs = ?new"
    unfolding all_intervals_def collect_intervals_map_of
    by (simp add: Let_def split: if_splits)
  moreover have "\<forall>iv\<in>set ?new. 0 \<le> fst iv"
    using assms(1) by auto
  ultimately show ?thesis
    using ivs(2) union_length_card[of ?new] by (simp add: naive_union_length_def)
qed

theorem ranges_covered_length_witness:
  "ranges \<lparr>contig = ''ctg'', rows =
        [aln ''chr1'' (0, 100) (0, 100) 400 CHR ''+'',
         aln ''chr2'' (10, 50) (100, 140) 400 CHR ''+'',
         aln ''chr1'' (50, 180) (200, 330) 400 CHR ''+'',
         aln ''chr1'' (500, 505) (330, 335) 400 CHR ''+'']\<rparr> 10
     = [(''chr1'', 180), (''chr2'', 40)]
   \<and> int (naive_union_length [(0, 100), (50, 180)]) = 180"
proof -
  let ?ca = "\<lparr>contig = ''ctg'', rows =
        [aln ''chr1'' (0, 100) (0, 100) 400 CHR ''+'',
         aln ''chr2'' (10, 50) (100, 140) 400 CHR ''+'',
         aln ''chr1'' (50, 180) (200, 330) 400 CHR ''+'',
         aln ''chr1'' (500, 505) (330, 335) 400 CHR ''+'']\<rparr>"
  have ev: "ranges ?ca 10 = [(''chr1'', 180), (''chr2'', 40)]" by code_simp
  have h1: "\<forall>a\<in>set (rows ?ca). 0 \<le> ref_start a" by (simp add: aln_def)
  have h2: "(''chr1'', 180) \<in> set (ranges ?ca 10)" unfolding ev by simp
  have fl: "map (\<lambda>a. (ref_start a, ref_end a))
              (filter (\<lambda>a. \<not> aln_len a < 10 \<and> ref_header a = ''chr1'') (rows ?ca))
          = [(0, 100), (50, 180)]"
    by (simp add: aln_def)
  show ?thesis
    using ranges_covered_length[OF h1 h2] ev unfolding fl by simp
qed

end
